theory Spec2Isabelle
  imports Complex_Main "HOL-Library.Log_Nat" "HOL-Library.Multiset" "HOL-Library.Sublist" "HOL-Library.Code_Target_Nat"
begin

section \<open>JavaScript numbers\<close>

text \<open>
  The application is JavaScript: every number it computes with is an IEEE-754 binary64
  value. A finite number is modelled by the rational it denotes, and each arithmetic
  operation by the exact operation followed by \<open>fl\<close>, rounding to the nearest binary64
  value, ties to even. \<open>NaN\<close> is \<open>None\<close> where the source can produce it (a date that
  does not parse). Overflow to infinity is outside the model: the operands of the source
  are money amounts and millisecond time stamps.
\<close>

definition pow2 :: "int \<Rightarrow> rat" where
  "pow2 e = (if 0 \<le> e then 2 ^ nat e else 1 / 2 ^ nat (- e))"

text \<open>The binary exponent of a positive rational: \<open>pow2 e \<le> a < pow2 (e + 1)\<close>.\<close>

definition ilog2 :: "rat \<Rightarrow> int" where
  "ilog2 a = (if 1 \<le> a then int (floorlog 2 (nat \<lfloor>a\<rfloor>)) - 1
              else - int (floorlog 2 (nat (\<lceil>1 / a\<rceil> - 1))))"

definition roundTiesToEven :: "rat \<Rightarrow> int" where
  "roundTiesToEven r =
     (let n = \<lfloor>r\<rfloor>; d = r - of_int n
      in if d < 1 / 2 then n else if 1 / 2 < d then n + 1 else if even n then n else n + 1)"

text \<open>
  Rounding to binary64: 53 significant bits, the exponent not below that of the
  smallest normal number (below it the spacing stays \<open>2 ^ - 1074\<close>).
\<close>

definition fl :: "rat \<Rightarrow> rat" where
  "fl x = (if x = 0 then 0
           else (let a = \<bar>x\<bar>; e = max (ilog2 a) (- 1022); q = pow2 (e - 52)
                 in sgn x * of_int (roundTiesToEven (a / q)) * q))"

definition js_add :: "rat \<Rightarrow> rat \<Rightarrow> rat" where
  "js_add x y = fl (x + y)"

definition js_sub :: "rat \<Rightarrow> rat \<Rightarrow> rat" where
  "js_sub x y = fl (x - y)"

definition js_div :: "rat \<Rightarrow> rat \<Rightarrow> rat" where
  "js_div x y = fl (x / y)"

text \<open>\<open>x || 0\<close> on a number that may be absent (\<open>null\<close>, \<open>undefined\<close>): \<open>0\<close> is falsy too.\<close>

definition or_zero :: "rat option \<Rightarrow> rat" where
  "or_zero x = (case x of None \<Rightarrow> 0 | Some v \<Rightarrow> v)"

section \<open>Service reports\<close>

text \<open>
  The fields of a report object that the modelled functions read. \<open>completion_date\<close> is
  \<open>None\<close> when the field is \<open>null\<close>; text fields that the source tests for truthiness
  are empty when absent. \<open>employee_name\<close> is \<open>None\<close> when the object has no such string
  (the source calls a method on it in one place and guards it with \<open>||\<close> in another).
\<close>

record report =
  report_id :: string
  client_name :: string
  employee_id :: string
  employee_name :: "string option"
  description :: string
  status :: string
  request_date :: string
  completion_date :: "string option"
  total_cost :: "rat option"
  parts_cost :: "rat option"
  admin_notes :: string
  employee_notes :: string

text \<open>
  \<open>new Date(s)\<close> is the host's parser: a parameter \<open>D\<close> of the functions that call it,
  giving the time value in milliseconds, \<open>None\<close> for an invalid date. \<open>new Date()\<close> is
  the parameter \<open>today\<close>.
\<close>

type_synonym date_parser = "string \<Rightarrow> int option"

section \<open>Flags (ServiceReports)\<close>

datatype flag = GreenFlag | RedFlag

text \<open>\<open>today - reportDate\<close>: the difference of two time values, \<open>None\<close> for \<open>NaN\<close>.\<close>

definition diffTime :: "int \<Rightarrow> int option \<Rightarrow> rat option" where
  "diffTime today reportDate = map_option (\<lambda>t. js_sub (of_int today) (of_int t)) reportDate"

text \<open>\<open>Math.ceil(diffTime / (1000 * 60 * 60 * 24))\<close>.\<close>

definition diffDays :: "rat option \<Rightarrow> int option" where
  "diffDays dt = map_option (\<lambda>d. \<lceil>js_div d (1000 * 60 * 60 * 24)\<rceil>) dt"

definition isReportOverdue :: "date_parser \<Rightarrow> int \<Rightarrow> report \<Rightarrow> bool" where
  "isReportOverdue D today r =
     (case diffDays (diffTime today (D (request_date r))) of
        None \<Rightarrow> False
      | Some n \<Rightarrow> 2 \<le> n)"

definition getReportFlag :: "date_parser \<Rightarrow> int \<Rightarrow> report \<Rightarrow> flag option" where
  "getReportFlag D today r =
     (case diffDays (diffTime today (D (request_date r))) of
        None \<Rightarrow> None
      | Some n \<Rightarrow> if n \<le> 1 then Some GreenFlag else if 2 \<le> n then Some RedFlag else None)"

section \<open>Working sets (ServiceReports, ServicesConcluded)\<close>

datatype js_error = TypeError | RequestFailed | PdfError

text \<open>
  \<open>fetchReports\<close> and \<open>fetchCompletedReports\<close>: the response of \<open>GET /reports\<close> is the
  list \<open>data\<close>, or the request fails; on failure the handler logs and the component keeps
  its previous \<open>reports\<close>.
\<close>

definition fetchReports :: "js_error + report list \<Rightarrow> report list \<Rightarrow> report list" where
  "fetchReports response reports =
     (case response of
        Inl e \<Rightarrow> reports
      | Inr data \<Rightarrow> filter (\<lambda>report. status report \<noteq> ''completed'') data)"

definition fetchCompletedReports :: "js_error + report list \<Rightarrow> report list \<Rightarrow> report list" where
  "fetchCompletedReports response reports =
     (case response of
        Inl e \<Rightarrow> reports
      | Inr data \<Rightarrow> filter (\<lambda>report. status report = ''completed'') data)"

text \<open>
  \<open>String.prototype.includes\<close> (\<open>str_includes\<close>): \<open>t\<close> occurs in \<open>s\<close> as a run of
  consecutive characters.
\<close>

fun str_includes :: "string \<Rightarrow> string \<Rightarrow> bool" where
  "str_includes [] t = (t = [])"
| "str_includes (c # s) t = (prefix t (c # s) \<or> str_includes s t)"

text \<open>
  \<open>String.prototype.toLowerCase\<close> is the host's: the Unicode lower-case mapping, a
  function from strings to strings. The filter takes it as the parameter \<open>toLowerCase\<close>.
\<close>

type_synonym case_mapping = "string \<Rightarrow> string"

text \<open>
  The employee filter of \<open>filterReports\<close> in \<open>ServicesConcluded\<close>:
  \<open>report.employee_name.toLowerCase().includes(searchEmployee.toLowerCase())\<close>, applied
  by \<open>Array.prototype.filter\<close> from the first report on. The method call raises a
  \<open>TypeError\<close> on a report without an employee name (\<open>null\<close> or \<open>undefined\<close>), which
  ends the filtering: no list is given to \<open>setFilteredReports\<close>.
\<close>

fun filter_employee :: "case_mapping \<Rightarrow> string \<Rightarrow> report list \<Rightarrow> js_error + report list" where
  "filter_employee toLowerCase searchEmployee [] = Inr []"
| "filter_employee toLowerCase searchEmployee (report # rest) =
     (case employee_name report of
        None \<Rightarrow> Inl TypeError
      | Some name \<Rightarrow>
          (case filter_employee toLowerCase searchEmployee rest of
             Inl e \<Rightarrow> Inl e
           | Inr kept \<Rightarrow>
               Inr (if str_includes (toLowerCase name) (toLowerCase searchEmployee)
                    then report # kept else kept)))"

text \<open>
  \<open>filterReports\<close> of \<open>ServicesConcluded\<close>; the result is the list given to
  \<open>setFilteredReports\<close>. An empty search string is falsy and switches its filter off.
\<close>

definition filterReports_concluded ::
    "case_mapping \<Rightarrow> report list \<Rightarrow> string \<Rightarrow> string \<Rightarrow> js_error + report list" where
  "filterReports_concluded toLowerCase reports searchClient searchEmployee =
     (let filtered =
            (if searchClient \<noteq> [] then filter (\<lambda>report. client_name report = searchClient) reports
             else reports)
      in if searchEmployee \<noteq> [] then filter_employee toLowerCase searchEmployee filtered
         else Inr filtered)"

text \<open>The two criteria as predicates on one report.\<close>

definition client_matches :: "string \<Rightarrow> report \<Rightarrow> bool" where
  "client_matches searchClient report = (client_name report = searchClient)"

definition employee_matches :: "case_mapping \<Rightarrow> string \<Rightarrow> report \<Rightarrow> bool" where
  "employee_matches toLowerCase searchEmployee report =
     (case employee_name report of
        None \<Rightarrow> False
      | Some name \<Rightarrow> str_includes (toLowerCase name) (toLowerCase searchEmployee))"

text \<open>
  The employee label of the PDF, \<open>report.employee_name || 'N/A'\<close> in \<open>generatePDF\<close>: the
  same field read with a fallback for a report without an employee name.
\<close>

definition employee_label :: "report \<Rightarrow> string" where
  "employee_label report =
     (case employee_name report of
        None \<Rightarrow> ''N/A''
      | Some name \<Rightarrow> if name = [] then ''N/A'' else name)"

section \<open>Gross profit\<close>

text \<open>
  \<open>(report.total_cost || 0) - (report.parts_cost || 0)\<close>, the expression that the
  report card, the completed list and the PDF all display as the gross profit.
\<close>

definition computeGrossProfit :: "rat option \<Rightarrow> rat option \<Rightarrow> rat" where
  "computeGrossProfit totalCost partsCost = js_sub (or_zero totalCost) (or_zero partsCost)"

text \<open>
  \<open>formatCurrency\<close> is \<open>new Intl.NumberFormat('en-US', {minimumFractionDigits: 2,
  maximumFractionDigits: 2}).format(amount || 0)\<close>. The formatter takes the decimal text
  of the number, the shortest decimal that reads back as the same binary64 value, and
  rounds that text to two fraction digits, half away from zero. So \<open>1.005\<close>, the number
  \<open>1.00499999999999989\<dots>\<close>, has the text \<open>1.005\<close> and is shown as \<open>1.01\<close>. The model gives
  the number that the formatted text denotes.
\<close>

definition pow10 :: "int \<Rightarrow> rat" where
  "pow10 e = (if 0 \<le> e then 10 ^ nat e else 1 / 10 ^ nat (- e))"

text \<open>The decimal exponent of a positive rational: \<open>pow10 (n - 1) \<le> a < pow10 n\<close>.\<close>

definition dec_exponent :: "rat \<Rightarrow> int" where
  "dec_exponent a = (if 1 \<le> a then int (floorlog 10 (nat \<lfloor>a\<rfloor>))
                     else 1 - int (floorlog 10 (nat (\<lceil>1 / a\<rceil> - 1))))"

text \<open>
  The decimals of \<open>k\<close> significant digits next to a positive \<open>a\<close>: the one with the
  digits \<open>decimal_digits k a\<close>, which is \<open>a\<close> cut off, and the next one above.
\<close>

definition decimal_digits :: "nat \<Rightarrow> rat \<Rightarrow> int" where
  "decimal_digits k a = \<lfloor>a / pow10 (dec_exponent a - int k)\<rfloor>"

definition decimal_below :: "nat \<Rightarrow> rat \<Rightarrow> rat" where
  "decimal_below k a = of_int (decimal_digits k a) * pow10 (dec_exponent a - int k)"

definition decimal_above :: "nat \<Rightarrow> rat \<Rightarrow> rat" where
  "decimal_above k a = of_int (decimal_digits k a + 1) * pow10 (dec_exponent a - int k)"

text \<open>
  The decimal text of a positive binary64 value \<open>a\<close> (\<open>Number::toString\<close>): the fewest
  significant digits \<open>k\<close> such that a decimal of \<open>k\<close> digits reads back as \<open>a\<close>, and of the
  decimals of \<open>k\<close> digits that do, the one closest to \<open>a\<close> (the even one of two equally
  close). Seventeen digits are enough for every binary64 value; \<open>shortest_from\<close> tries
  \<open>k\<close>, \<open>k + 1\<close>, \<dots> as far as its first argument allows.
\<close>

fun shortest_from :: "nat \<Rightarrow> nat \<Rightarrow> rat \<Rightarrow> rat" where
  "shortest_from 0 k a = a"
| "shortest_from (Suc fuel) k a =
     (let lo = decimal_below k a; hi = decimal_above k a
      in if fl lo = a \<and> fl hi = a
         then (if a - lo < hi - a \<or> (a - lo = hi - a \<and> even (decimal_digits k a))
               then lo else hi)
         else if fl lo = a then lo
         else if fl hi = a then hi
         else shortest_from fuel (Suc k) a)"

definition shortest_decimal :: "rat \<Rightarrow> rat" where
  "shortest_decimal x = (if x = 0 then 0 else sgn x * shortest_from 17 1 \<bar>x\<bar>)"

text \<open>Rounding to two fraction digits, half away from zero.\<close>

definition halfExpand2 :: "rat \<Rightarrow> rat" where
  "halfExpand2 x = sgn x * of_int \<lfloor>\<bar>x\<bar> * 100 + 1 / 2\<rfloor> / 100"

definition formatCurrency :: "rat option \<Rightarrow> rat" where
  "formatCurrency amount = halfExpand2 (shortest_decimal (or_zero amount))"

section \<open>Report download (ReportsDownload)\<close>

subsection \<open>The filter of \<open>generateReport\<close>\<close>

text \<open>\<open>report.completion_date || report.request_date\<close>: an empty string is falsy too.\<close>

definition effective_date :: "report \<Rightarrow> string" where
  "effective_date report =
     (case completion_date report of
        None \<Rightarrow> request_date report
      | Some s \<Rightarrow> if s \<noteq> [] then s else request_date report)"

text \<open>
  \<open>reportDate >= start && reportDate <= end\<close> on three \<open>Date\<close> objects: a comparison
  with an invalid date is false.
\<close>

definition in_range :: "date_parser \<Rightarrow> string \<Rightarrow> string \<Rightarrow> report \<Rightarrow> bool" where
  "in_range D startDate endDate report =
     (case D (effective_date report) of
        None \<Rightarrow> False
      | Some reportDate \<Rightarrow>
          (case D startDate of
             None \<Rightarrow> False
           | Some start \<Rightarrow>
               (case D endDate of
                  None \<Rightarrow> False
                | Some end' \<Rightarrow> start \<le> reportDate \<and> reportDate \<le> end')))"

text \<open>
  \<open>selected && selected !== 'all' && selected !== ''\<close>: whether a selection of the client
  or employee list narrows the result.
\<close>

definition narrows :: "string \<Rightarrow> bool" where
  "narrows selected = (selected \<noteq> [] \<and> selected \<noteq> ''all'')"

definition select_reports ::
    "date_parser \<Rightarrow> string \<Rightarrow> string \<Rightarrow> string \<Rightarrow> string \<Rightarrow> report list \<Rightarrow> report list" where
  "select_reports D startDate endDate selectedClient selectedEmployee allReports =
     (let reports = filter (\<lambda>report. if status report \<noteq> ''completed'' then False
                                      else in_range D startDate endDate report) allReports;
          reports = (if narrows selectedClient
                     then filter (\<lambda>report. client_name report = selectedClient) reports
                     else reports);
          reports = (if narrows selectedEmployee
                     then filter (\<lambda>report. employee_id report = selectedEmployee) reports
                     else reports)
      in reports)"

subsection \<open>The layout loop of \<open>generatePDF\<close>\<close>

text \<open>
  The PDF library is not part of the repository. What the layout takes from it is a
  parameter: the page size in millimetres, \<open>splitTextToSize\<close>, and whether one of the
  drawing calls for a report raises (outside the handler around each photo, which
  swallows its own). Drawing calls change no variable of the loop; the model records
  each container rectangle and leaves the other drawing out. The cursor only takes small
  integer values, on which binary64 arithmetic is exact.
\<close>

record pdf_library =
  pageWidth :: rat
  pageHeight :: rat
  splitTextToSize :: "string \<Rightarrow> rat \<Rightarrow> string list"
  draw_raises :: "report \<Rightarrow> bool"

record container =
  seq_no :: nat
  shown :: report
  box_top :: rat

record layout =
  yPosition :: rat
  reportsPerPage :: nat
  finished :: "container list list"
  page :: "container list"

definition maxReportsPerPage :: nat where
  "maxReportsPerPage = 3"

definition containerHeight :: rat where
  "containerHeight = 85"

text \<open>\<open>if (reportsPerPage >= maxReportsPerPage || yPosition > pageHeight - 100)\<close>.\<close>

definition needs_new_page :: "pdf_library \<Rightarrow> layout \<Rightarrow> bool" where
  "needs_new_page lib st =
     (maxReportsPerPage \<le> reportsPerPage st \<or> pageHeight lib - 100 < yPosition st)"

definition addPage :: "layout \<Rightarrow> layout" where
  "addPage st =
     st\<lparr>finished := finished st @ [page st], page := [], yPosition := 20, reportsPerPage := 0\<rparr>"

definition truthy :: "rat option \<Rightarrow> bool" where
  "truthy x = (case x of None \<Rightarrow> False | Some v \<Rightarrow> v \<noteq> 0)"

text \<open>
  The cursor after the text of one container, from the cursor \<open>y\<close> at its top: the title
  band, the two columns (three lines of 7 each; the right one only with a cost), the
  description (two lines drawn at most) and the notes.
\<close>

definition after_text :: "pdf_library \<Rightarrow> report \<Rightarrow> rat \<Rightarrow> rat" where
  "after_text lib report y =
     (let y = y + 15;
          leftY = y + 7 + 7 + 7;
          rightY = (if truthy (total_cost report) \<or> truthy (parts_cost report)
                    then y + 7 + 7 + 7 else y);
          y = max leftY rightY + 3;
          descText = (if description report \<noteq> [] then description report else ''N/A'');
          wrappedDesc = splitTextToSize lib descText (pageWidth lib - 40);
          y = y + (if 2 < length wrappedDesc then 18 else 12);
          y = (if admin_notes report \<noteq> [] then y + 6 else y);
          y = (if employee_notes report \<noteq> [] then y + 6 else y)
      in y)"

text \<open>One iteration of the loop, for the report of index \<open>i\<close>.\<close>

definition place_report :: "pdf_library \<Rightarrow> nat \<Rightarrow> report \<Rightarrow> layout \<Rightarrow> layout" where
  "place_report lib i report st =
     (let st = (if needs_new_page lib st then addPage st else st);
          box = \<lparr>seq_no = i + 1, shown = report, box_top = yPosition st - 5\<rparr>;
          y = after_text lib report (yPosition st)
      in st\<lparr>page := page st @ [box],
            yPosition := y + (containerHeight + 10),
            reportsPerPage := reportsPerPage st + 1\<rparr>)"

fun place_reports :: "pdf_library \<Rightarrow> nat \<Rightarrow> report list \<Rightarrow> layout \<Rightarrow> js_error + layout" where
  "place_reports lib i [] st = Inr st"
| "place_reports lib i (report # rest) st =
     (if draw_raises lib report then Inl PdfError
      else place_reports lib (i + 1) rest (place_report lib i report st))"

record document =
  fileName :: string
  pages :: "container list list"

text \<open>
  \<open>generatePDF\<close>: the document given to \<open>pdf.save\<close>, or the exception that its handler
  logs and throws again (nothing is saved then).
\<close>

definition generatePDF ::
    "pdf_library \<Rightarrow> report list \<Rightarrow> string \<Rightarrow> string \<Rightarrow> js_error + document" where
  "generatePDF lib reports startDate endDate =
     (case place_reports lib 0 reports
             \<lparr>yPosition = 45, reportsPerPage = 0, finished = [], page = []\<rparr> of
        Inl e \<Rightarrow> Inl e
      | Inr st \<Rightarrow>
          Inr \<lparr>fileName = ''service_reports_'' @ startDate @ ''_to_'' @ endDate @ ''.pdf'',
               pages = finished st @ [page st]\<rparr>)"

subsection \<open>\<open>generateReport\<close>\<close>

text \<open>
  What a click on the download button does to the user and the component: the alerts
  shown, the documents saved, and \<open>isGenerating\<close> when the handler ends.
\<close>

record effects =
  alerts :: "string list"
  saved :: "document list"
  isGenerating :: bool

text \<open>
  The \<open>try\<close> block: \<open>Inl\<close> is an exception that reaches the \<open>catch\<close> (a failed request,
  or one that \<open>generatePDF\<close> threw again). With no report left the block alerts, resets
  \<open>isGenerating\<close> and returns before \<open>generatePDF\<close> is called.
\<close>

definition generateReport_try ::
    "date_parser \<Rightarrow> pdf_library \<Rightarrow> string \<Rightarrow> string \<Rightarrow> string \<Rightarrow> string
     \<Rightarrow> js_error + report list \<Rightarrow> js_error + effects" where
  "generateReport_try D lib startDate endDate selectedClient selectedEmployee response =
     (case response of
        Inl e \<Rightarrow> Inl e
      | Inr allReports \<Rightarrow>
          (let reports = select_reports D startDate endDate selectedClient selectedEmployee
                           allReports
           in if length reports = 0
              then Inr \<lparr>alerts = [''No completed reports found for the selected criteria''],
                        saved = [], isGenerating = False\<rparr>
              else (case generatePDF lib reports startDate endDate of
                      Inl e \<Rightarrow> Inl e
                    | Inr doc \<Rightarrow> Inr \<lparr>alerts = [], saved = [doc], isGenerating = True\<rparr>)))"

definition generateReport ::
    "date_parser \<Rightarrow> pdf_library \<Rightarrow> string \<Rightarrow> string \<Rightarrow> string \<Rightarrow> string
     \<Rightarrow> js_error + report list \<Rightarrow> effects" where
  "generateReport D lib startDate endDate selectedClient selectedEmployee response =
     (if startDate = [] \<or> endDate = []
      then \<lparr>alerts = [''Please select both start and end dates''], saved = [],
            isGenerating = False\<rparr>
      else (case generateReport_try D lib startDate endDate selectedClient selectedEmployee
                   response of
              Inl e \<Rightarrow> \<lparr>alerts = [''Failed to generate report''], saved = [],
                        isGenerating = False\<rparr>
            | Inr done \<Rightarrow> done\<lparr>isGenerating := False\<rparr>))"

subsection \<open>Invariant of the layout loop\<close>

text \<open>
  Every container moves the cursor by at least 146 (15 + 21 + 3 + 12 of text, then
  \<open>containerHeight + 10\<close>), from 20 at the top of a new page. \<open>packed\<close> records this,
  that the counter is the number of containers on the current page, and that no page
  holds more than two.
\<close>

definition packed :: "layout \<Rightarrow> bool" where
  "packed st \<longleftrightarrow>
     reportsPerPage st = length (page st) \<and>
     20 + 146 * of_nat (length (page st)) \<le> yPosition st \<and>
     length (page st) \<le> 2 \<and>
     (\<forall>p \<in> set (finished st). length p \<le> 2)"

text \<open>The containers drawn so far, in the order of the pages.\<close>

definition placed :: "layout \<Rightarrow> container list" where
  "placed st = concat (finished st) @ page st"

section \<open>Debounced edits (ServiceReports)\<close>

text \<open>
  The admin controls of a report card save three fields while the user types: the two
  cost inputs and the admin notes. Each \<open>onChange\<close> handler clears a timer and sets a new
  one of 1000 ms whose callback sends the \<open>PUT\<close> request. The handle of the timer is a
  property of \<open>window\<close>: \<open>financialTimeout\<close> for both cost inputs of every card,
  \<open>notesTimeout\<close> for the notes of every card.
\<close>

datatype cost_field = TotalCost | PartsCost

datatype field = CostField cost_field | AdminNotes

datatype timeout_handle = FinancialTimeout | NotesTimeout

text \<open>
  A request as the backend receives it: the report, the field and its new text (for a
  cost field the request carries \<open>parseFloat(text) || 0\<close>, which the text determines).
\<close>

record put_request =
  put_report :: string
  put_field :: field
  put_value :: string

text \<open>
  The callback of a timer. A cost handler keeps the text of its input in \<open>newValue\<close> and
  its callback is \<open>updateFinancialField(report.id, field, parseFloat(newValue) || 0)\<close>:
  the text is that of the edit. The callback of the notes handler is
  \<open>updateAdminNotes(report.id, e.target.value)\<close>: it reads the textarea of the card
  when it runs, not when the user typed (the event keeps its target, as it does from
  React 17 on).
\<close>

datatype task = UpdateFinancialField string cost_field string | UpdateAdminNotes string

fun handle_of :: "task \<Rightarrow> timeout_handle" where
  "handle_of (UpdateFinancialField r f v) = FinancialTimeout"
| "handle_of (UpdateAdminNotes r) = NotesTimeout"

text \<open>The request a callback sends when the notes textareas hold \<open>text\<close>.\<close>

fun request_of :: "(string \<Rightarrow> string) \<Rightarrow> task \<Rightarrow> put_request" where
  "request_of text (UpdateFinancialField r f v)
     = \<lparr>put_report = r, put_field = CostField f, put_value = v\<rparr>"
| "request_of text (UpdateAdminNotes r)
     = \<lparr>put_report = r, put_field = AdminNotes, put_value = text r\<rparr>"

record timer =
  timer_id :: nat
  due :: nat
  callback :: task

text \<open>
  The browser as the handlers see it: the clock in milliseconds, the pending timers in
  the order of their creation, the two handles (\<open>None\<close> for \<open>undefined\<close>), the text that
  the notes textarea of each report's card holds, and the requests sent to the backend
  so far.
\<close>

record browser =
  now :: nat
  next_id :: nat
  timers :: "timer list"
  financialTimeout :: "nat option"
  notesTimeout :: "nat option"
  notes_text :: "string \<Rightarrow> string"
  sent :: "put_request list"

text \<open>\<open>clearTimeout(id)\<close>: nothing happens for \<open>undefined\<close> or for a timer that has run.\<close>

definition clearTimeout :: "nat option \<Rightarrow> browser \<Rightarrow> browser" where
  "clearTimeout h b =
     (case h of None \<Rightarrow> b
              | Some i \<Rightarrow> b\<lparr>timers := filter (\<lambda>t. timer_id t \<noteq> i) (timers b)\<rparr>)"

text \<open>\<open>setTimeout(callback, delay)\<close>: the new timer's id and the browser with the timer.\<close>

definition setTimeout :: "task \<Rightarrow> nat \<Rightarrow> browser \<Rightarrow> nat \<times> browser" where
  "setTimeout cb delay b =
     (next_id b,
      b\<lparr>timers := timers b @ [\<lparr>timer_id = next_id b, due = now b + delay, callback = cb\<rparr>],
        next_id := next_id b + 1\<rparr>)"

text \<open>
  The three \<open>onChange\<close> handlers, as far as timers and textareas go (each also puts the
  edit into the displayed list, which changes no textarea: the notes textarea already
  holds what the user typed).
\<close>

definition onChange_total_cost :: "string \<Rightarrow> string \<Rightarrow> browser \<Rightarrow> browser" where
  "onChange_total_cost r newValue b =
     (let b = clearTimeout (financialTimeout b) b;
          (i, b) = setTimeout (UpdateFinancialField r TotalCost newValue) 1000 b
      in b\<lparr>financialTimeout := Some i\<rparr>)"

definition onChange_parts_cost :: "string \<Rightarrow> string \<Rightarrow> browser \<Rightarrow> browser" where
  "onChange_parts_cost r newValue b =
     (let b = clearTimeout (financialTimeout b) b;
          (i, b) = setTimeout (UpdateFinancialField r PartsCost newValue) 1000 b
      in b\<lparr>financialTimeout := Some i\<rparr>)"

definition onChange_admin_notes :: "string \<Rightarrow> string \<Rightarrow> browser \<Rightarrow> browser" where
  "onChange_admin_notes r typed b =
     (let b = b\<lparr>notes_text := (notes_text b)(r := typed)\<rparr>;
          b = clearTimeout (notesTimeout b) b;
          (i, b) = setTimeout (UpdateAdminNotes r) 1000 b
      in b\<lparr>notesTimeout := Some i\<rparr>)"

text \<open>
  Time passing with no edit: after \<open>d\<close> milliseconds the timers that are due have run,
  earliest first and in the order of their creation where two are due together. A
  callback sends its request and sets no timer.
\<close>

definition elapse :: "nat \<Rightarrow> browser \<Rightarrow> browser" where
  "elapse d b =
     (let t' = now b + d;
          ready = sort_key due (filter (\<lambda>t. due t \<le> t') (timers b))
      in b\<lparr>now := t',
           timers := filter (\<lambda>t. \<not> due t \<le> t') (timers b),
           sent := sent b @ map (\<lambda>t. request_of (notes_text b) (callback t)) ready\<rparr>)"

text \<open>
  What happens to the component: an edit of a cost input or of the notes of a report's
  card, time passing, and the list being fetched and rendered again (as it is after
  every saved change), after which the notes textarea of each card holds the notes
  that came from the backend.
\<close>

datatype event =
    EditCost string cost_field string
  | EditNotes string string
  | Refetched "string \<Rightarrow> string"
  | Elapse nat

fun step :: "browser \<Rightarrow> event \<Rightarrow> browser" where
  "step b (EditCost r TotalCost v) = onChange_total_cost r v b"
| "step b (EditCost r PartsCost v) = onChange_parts_cost r v b"
| "step b (EditNotes r v) = onChange_admin_notes r v b"
| "step b (Refetched text) = b\<lparr>notes_text := text\<rparr>"
| "step b (Elapse d) = elapse d b"

definition run :: "event list \<Rightarrow> browser \<Rightarrow> browser" where
  "run evs b = foldl step b evs"

text \<open>The component after its first rendering, the textareas holding the fetched notes.\<close>

definition page_load :: "(string \<Rightarrow> string) \<Rightarrow> browser" where
  "page_load text =
     \<lparr>now = 0, next_id = 1, timers = [], financialTimeout = None, notesTimeout = None,
      notes_text = text, sent = []\<rparr>"

subsection \<open>What a debounce per handle sends\<close>

text \<open>
  The behaviour in terms of the events alone. \<open>handle_of_event\<close> is the handle an edit
  goes through; \<open>quiet h evs\<close> is the time that passes in \<open>evs\<close> before the next edit
  through \<open>h\<close> (or before the end); \<open>text_when n text evs\<close> is what the textareas hold
  when \<open>n\<close> milliseconds of \<open>evs\<close> have passed, starting from \<open>text\<close>.
\<close>

fun handle_of_event :: "event \<Rightarrow> timeout_handle option" where
  "handle_of_event (EditCost r f v) = Some FinancialTimeout"
| "handle_of_event (EditNotes r v) = Some NotesTimeout"
| "handle_of_event (Refetched text) = None"
| "handle_of_event (Elapse d) = None"

fun quiet :: "timeout_handle \<Rightarrow> event list \<Rightarrow> nat" where
  "quiet h [] = 0"
| "quiet h (Elapse d # evs) = d + quiet h evs"
| "quiet h (ev # evs) = (if handle_of_event ev = Some h then 0 else quiet h evs)"

fun text_after :: "(string \<Rightarrow> string) \<Rightarrow> event \<Rightarrow> (string \<Rightarrow> string)" where
  "text_after text (EditNotes r v) = text(r := v)"
| "text_after text (Refetched text') = text'"
| "text_after text ev = text"

fun text_when :: "nat \<Rightarrow> (string \<Rightarrow> string) \<Rightarrow> event list \<Rightarrow> (string \<Rightarrow> string)" where
  "text_when n text [] = text"
| "text_when n text (Elapse d # evs) = (if n \<le> d then text else text_when (n - d) text evs)"
| "text_when n text (ev # evs) = text_when n (text_after text ev) evs"

text \<open>
  An edit leads to a request exactly when no edit through the same handle follows within
  1000 ms and that time has passed. The request of a cost edit carries the text of the
  edit; the request of a notes edit carries what the textarea holds 1000 ms later.
\<close>

fun edit_task :: "event \<Rightarrow> task option" where
  "edit_task (EditCost r f v) = Some (UpdateFinancialField r f v)"
| "edit_task (EditNotes r v) = Some (UpdateAdminNotes r)"
| "edit_task (Refetched text) = None"
| "edit_task (Elapse d) = None"

fun debounced :: "timeout_handle \<Rightarrow> (string \<Rightarrow> string) \<Rightarrow> event list \<Rightarrow> put_request list" where
  "debounced h text [] = []"
| "debounced h text (ev # evs) =
     (case edit_task ev of
        None \<Rightarrow> debounced h (text_after text ev) evs
      | Some cb \<Rightarrow>
          (if handle_of cb = h \<and> 1000 \<le> quiet h evs
           then request_of (text_when 1000 (text_after text ev) evs) cb
                # debounced h (text_after text ev) evs
           else debounced h (text_after text ev) evs))"

subsection \<open>Notions for the proofs\<close>

definition read_handle :: "timeout_handle \<Rightarrow> browser \<Rightarrow> nat option" where
  "read_handle h b =
     (case h of FinancialTimeout \<Rightarrow> financialTimeout b | NotesTimeout \<Rightarrow> notesTimeout b)"

definition write_handle :: "timeout_handle \<Rightarrow> nat \<Rightarrow> browser \<Rightarrow> browser" where
  "write_handle h i b =
     (case h of FinancialTimeout \<Rightarrow> b\<lparr>financialTimeout := Some i\<rparr>
              | NotesTimeout \<Rightarrow> b\<lparr>notesTimeout := Some i\<rparr>)"

text \<open>What the three handlers share: clear the handle's timer, set a new one, keep its id.\<close>

definition restart :: "task \<Rightarrow> browser \<Rightarrow> browser" where
  "restart cb b =
     (let h = handle_of cb;
          b = clearTimeout (read_handle h b) b;
          (i, b) = setTimeout cb 1000 b
      in write_handle h i b)"

text \<open>The pending timers set through one handle, and the requests sent through it.\<close>

definition pending :: "timeout_handle \<Rightarrow> browser \<Rightarrow> timer list" where
  "pending h b = filter (\<lambda>t. handle_of (callback t) = h) (timers b)"

fun handle_of_field :: "field \<Rightarrow> timeout_handle" where
  "handle_of_field (CostField f) = FinancialTimeout"
| "handle_of_field AdminNotes = NotesTimeout"

definition sent_for :: "timeout_handle \<Rightarrow> put_request list \<Rightarrow> put_request list" where
  "sent_for h rs = filter (\<lambda>r. handle_of_field (put_field r) = h) rs"

text \<open>
  The states that the handlers produce: timer ids are fresh, a pending timer is the one
  its handle names, and it is not yet due.
\<close>

definition consistent :: "browser \<Rightarrow> bool" where
  "consistent b \<longleftrightarrow>
     distinct (map timer_id (timers b)) \<and>
     (\<forall>t \<in> set (timers b). timer_id t < next_id b \<and> now b < due t \<and>
        read_handle (handle_of (callback t)) b = Some (timer_id t)) \<and>
     (\<forall>i. financialTimeout b = Some i \<longrightarrow> i < next_id b \<and> notesTimeout b \<noteq> Some i) \<and>
     (\<forall>i. notesTimeout b = Some i \<longrightarrow> i < next_id b)"

text \<open>
  The request still to come from the timer that is pending through \<open>h\<close>, if the events
  let it run.
\<close>

definition carried :: "timeout_handle \<Rightarrow> browser \<Rightarrow> event list \<Rightarrow> put_request list" where
  "carried h b evs =
     (case pending h b of
        [] \<Rightarrow> []
      | t # ts \<Rightarrow>
          (if due t \<le> now b + quiet h evs
           then [request_of (text_when (due t - now b) (notes_text b) evs) (callback t)]
           else []))"

text \<open>The last edit of a burst through a handle, and the burst's duration.\<close>

fun last_edit :: "timeout_handle \<Rightarrow> event list \<Rightarrow> task option" where
  "last_edit h [] = None"
| "last_edit h (ev # evs) =
     (case last_edit h evs of
        Some later \<Rightarrow> Some later
      | None \<Rightarrow> (case edit_task ev of
                  None \<Rightarrow> None
                | Some cb \<Rightarrow> if handle_of cb = h then Some cb else None))"

fun duration :: "event list \<Rightarrow> nat" where
  "duration [] = 0"
| "duration (Elapse d # evs) = d + duration evs"
| "duration (ev # evs) = duration evs"

section \<open>Sample data\<close>

definition sample_report :: report where
  "sample_report =
     \<lparr>report_id = ''r1'', client_name = ''Smith Pool'', employee_id = ''e1'',
      employee_name = Some ''John'', description = ''Clean filter'', status = ''completed'',
      request_date = ''2024-03-09T12:00:00Z'', completion_date = None,
      total_cost = None, parts_cost = None, admin_notes = [], employee_notes = []\<rparr>"

text \<open>The host's parser on the dates and time stamps of the examples (UTC, milliseconds).\<close>

definition sample_dates :: date_parser where
  "sample_dates s =
     (if s = ''2024-03-09'' then Some 1709942400000
      else if s = ''2024-03-10'' then Some 1710028800000
      else if s = ''2024-03-08T12:00:00Z'' then Some 1709899200000
      else if s = ''2024-03-09T12:00:00Z'' then Some 1709985600000
      else if s = ''2024-03-10T12:00:00Z'' then Some 1710072000000
      else None)"

text \<open>
  An A4 page in millimetres (210 by 297; the library's own figures differ from these
  after the fourth decimal), with a \<open>splitTextToSize\<close> that never wraps and drawing
  calls that never raise; seven completed reports that differ in the client.
\<close>

definition a4 :: pdf_library where
  "a4 = \<lparr>pageWidth = 210, pageHeight = 297, splitTextToSize = (\<lambda>s w. [s]),
         draw_raises = (\<lambda>report. False)\<rparr>"

definition seven_reports :: "report list" where
  "seven_reports =
     map (\<lambda>name. sample_report\<lparr>client_name := name\<rparr>)
       [''A'', ''B'', ''C'', ''D'', ''E'', ''F'', ''G'']"

text \<open>Textareas that are empty after the first rendering.\<close>

definition no_notes :: "string \<Rightarrow> string" where
  "no_notes r = []"

text \<open>
  The host's \<open>toLowerCase\<close> on strings of characters below \<open>U+0100\<close>, which is what a
  \<open>char\<close> is here: the letters \<open>A\<close> to \<open>Z\<close> and the accented capitals \<open>U+00C0\<close> to \<open>U+00DE\<close>,
  without the sign \<open>U+00D7\<close>, move up by 32, and every other character stays.
\<close>

definition latin1_lower_char :: "char \<Rightarrow> char" where
  "latin1_lower_char c =
     (let n = (of_char c :: nat)
      in if (65 \<le> n \<and> n \<le> 90) \<or> (192 \<le> n \<and> n \<le> 222 \<and> n \<noteq> 215)
         then char_of (n + 32) else c)"

definition latin1_toLowerCase :: case_mapping where
  "latin1_toLowerCase s = map latin1_lower_char s"

section \<open>Properties of the number model\<close>

lemma pow2_pos: "0 < pow2 e"
  by (simp add: pow2_def)

lemma pow2_nat: "pow2 (int n) = 2 ^ n"
  by (simp add: pow2_def)

lemma roundTiesToEven_of_int: "roundTiesToEven (of_int n) = n"
  by (simp add: roundTiesToEven_def)

lemma pow2_neg: "e \<le> 0 \<Longrightarrow> pow2 e = 1 / 2 ^ nat (- e)"
  by (simp add: pow2_def)

lemma fl_scaled:
  assumes "x \<noteq> 0" and "- 1022 \<le> ilog2 \<bar>x\<bar>" and "ilog2 \<bar>x\<bar> \<le> 52"
    and "\<bar>x\<bar> * 2 ^ nat (52 - ilog2 \<bar>x\<bar>) = of_int m"
  shows "fl x = x"
proof -
  let ?e = "ilog2 \<bar>x\<bar>"
  let ?k = "nat (52 - ?e)"
  have q: "pow2 (?e - 52) = 1 / 2 ^ ?k"
    using assms(3) by (simp add: pow2_neg)
  have "\<bar>x\<bar> / pow2 (?e - 52) = of_int m"
    using assms(4) by (simp add: q)
  then have "fl x = sgn x * of_int m * (1 / 2 ^ ?k)"
    using assms(1,2) by (simp add: fl_def Let_def max_def roundTiesToEven_of_int q)
  also have "\<dots> = sgn x * (\<bar>x\<bar> * 2 ^ ?k) * (1 / 2 ^ ?k)"
    using assms(4) by simp
  also have "\<dots> = sgn x * \<bar>x\<bar>" by simp
  also have "\<dots> = x" by (simp add: sgn_mult_abs)
  finally show ?thesis .
qed

lemma ilog2_of_nat:
  assumes "0 < m"
  shows "ilog2 (of_nat m) = int (floorlog 2 m) - 1"
  using assms by (simp add: ilog2_def)

lemma fl_of_int:
  assumes "\<bar>n\<bar> < 2 ^ 53"
  shows "fl (of_int n) = of_int n"
proof (cases "n = 0")
  case True
  then show ?thesis by (simp add: fl_def)
next
  case False
  let ?m = "nat \<bar>n\<bar>"
  have m: "0 < ?m" "?m < 2 ^ 53" using False assms by auto
  have abs: "\<bar>of_int n :: rat\<bar> = of_nat ?m" by simp
  have lo: "1 \<le> floorlog 2 ?m"
    using m(1) by (simp add: floorlog_def)
  have hi: "floorlog 2 ?m \<le> 53"
    using m(2) by (simp add: floorlog_le_iff)
  have e: "ilog2 \<bar>of_int n :: rat\<bar> = int (floorlog 2 ?m) - 1"
    unfolding abs using m(1) by (rule ilog2_of_nat)
  show ?thesis
  proof (rule fl_scaled)
    show "(of_int n :: rat) \<noteq> 0" using False by simp
    show "- 1022 \<le> ilog2 \<bar>of_int n :: rat\<bar>" using lo by (simp add: e)
    show "ilog2 \<bar>of_int n :: rat\<bar> \<le> 52" using hi by (simp add: e)
    show "\<bar>of_int n :: rat\<bar> * 2 ^ nat (52 - ilog2 \<bar>of_int n :: rat\<bar>)
          = of_int (\<bar>n\<bar> * 2 ^ nat (52 - ilog2 \<bar>of_int n :: rat\<bar>))"
      by simp
  qed
qed

subsection \<open>Evaluating \<open>fl\<close>\<close>

lemma floorlog_2_eq:
  assumes "2 ^ k \<le> n" and "n < 2 ^ (k + 1)"
  shows "floorlog 2 n = k + 1"
proof -
  have "Suc k \<le> floorlog 2 n"
    using assms(1) by (intro floorlog_ge_SucI) simp_all
  moreover have "floorlog 2 n \<le> k + 1"
    using assms(2) by (intro floorlog_leI) simp_all
  ultimately show ?thesis by simp
qed

lemma pow2_add1: "pow2 (e + 1) = 2 * pow2 e"
proof (cases "0 \<le> e")
  case True
  then show ?thesis by (simp add: pow2_def nat_add_distrib)
next
  case False
  then have "nat (- e) = Suc (nat (- (e + 1)))" by simp
  then show ?thesis using False by (simp add: pow2_def)
qed

lemma pow2_mono: "d \<le> e \<Longrightarrow> pow2 d \<le> pow2 e"
proof (induction "nat (e - d)" arbitrary: e)
  case 0
  then show ?case by simp
next
  case (Suc k)
  then have "k = nat ((e - 1) - d)" and "d \<le> e - 1" by simp_all
  then have "pow2 d \<le> pow2 (e - 1)" using Suc.hyps(1) by blast
  also have "\<dots> \<le> pow2 e"
    using pow2_add1 [of "e - 1"] pow2_pos [of "e - 1"] by simp
  finally show ?case .
qed

lemma ilog2_unique:
  assumes "pow2 e \<le> x" and "x < pow2 (e + 1)"
  shows "ilog2 x = e"
proof (cases "1 \<le> x")
  case True
  have "0 \<le> e"
  proof (rule ccontr)
    assume "\<not> 0 \<le> e"
    then have "pow2 (e + 1) \<le> pow2 0" by (intro pow2_mono) simp
    then show False using assms(2) True by (simp add: pow2_def)
  qed
  then obtain k where k: "e = int k" by (metis nat_0_le)
  let ?n = "nat \<lfloor>x\<rfloor>"
  have x0: "0 \<le> \<lfloor>x\<rfloor>" using True by simp
  have "(2::rat) ^ k \<le> x" using assms(1) by (simp add: k pow2_nat)
  then have "(2::int) ^ k \<le> \<lfloor>x\<rfloor>" by (simp add: le_floor_iff)
  then have lo: "2 ^ k \<le> ?n" using x0 by (simp add: le_nat_iff)
  have "pow2 (e + 1) = 2 ^ (k + 1)"
    using pow2_nat [of "k + 1"] by (simp add: k add.commute)
  then have "x < (2::rat) ^ (k + 1)"
    using assms(2) by simp
  then have "\<lfloor>x\<rfloor> < (2::int) ^ (k + 1)" by (simp add: floor_less_iff)
  then have hi: "?n < 2 ^ (k + 1)" using x0 by (simp add: nat_less_iff)
  show ?thesis
    using True floorlog_2_eq [OF lo hi] by (simp add: ilog2_def k)
next
  case False
  have xpos: "0 < x" using assms(1) pow2_pos [of e] by simp
  have "e < 0"
  proof (rule ccontr)
    assume "\<not> e < 0"
    then have "pow2 0 \<le> pow2 e" by (intro pow2_mono) simp
    then show False using assms(1) False by (simp add: pow2_def)
  qed
  then obtain k where k: "e = - int (Suc k)"
    by (metis add.inverse_inverse nat_0_le neg_0_le_iff_le less_le not_less zero_less_nat_eq gr0_implies_Suc)
  let ?c = "\<lceil>1 / x\<rceil>"
  have n: "nat (- e) = Suc k" by (simp add: k)
  have "pow2 e = 1 / 2 ^ Suc k" using \<open>e < 0\<close> by (simp add: pow2_def n)
  then have "1 / 2 ^ Suc k \<le> x" using assms(1) by simp
  then have "1 / x \<le> 2 ^ Suc k" using xpos by (simp add: field_simps)
  then have c_hi: "?c \<le> 2 ^ Suc k" by (simp add: ceiling_le_iff)
  have "e + 1 = - int k" by (simp add: k)
  moreover have "pow2 (- int k) = 1 / 2 ^ k" by (cases "k = 0") (simp_all add: pow2_def)
  ultimately have "pow2 (e + 1) = 1 / 2 ^ k" by simp
  then have "x < 1 / 2 ^ k" using assms(2) by simp
  then have "2 ^ k < 1 / x" using xpos by (simp add: field_simps)
  then have c_lo: "2 ^ k < ?c" by (simp add: less_ceiling_iff)
  have lo: "2 ^ k \<le> nat (?c - 1)" using c_lo by (simp add: le_nat_iff)
  have "(1::int) \<le> 2 ^ k" by simp
  then have c1: "0 \<le> ?c - 1" using c_lo by linarith
  have "?c - 1 < int (2 ^ (k + 1))" using c_hi by simp
  then have hi: "nat (?c - 1) < 2 ^ (k + 1)" using c1 by linarith
  show ?thesis
    using False floorlog_2_eq [OF lo hi] by (simp add: ilog2_def k)
qed

lemma fl_eval:
  assumes "0 < x" and "ilog2 x = e" and "- 1022 \<le> e"
    and "roundTiesToEven (x / pow2 (e - 52)) = n"
  shows "fl x = of_int n * pow2 (e - 52)"
proof -
  have m: "max (ilog2 \<bar>x\<bar>) (- 1022) = e"
    using assms(1,2,3) by simp
  have "fl x = sgn x * of_int (roundTiesToEven (\<bar>x\<bar> / pow2 (e - 52))) * pow2 (e - 52)"
    using assms(1) unfolding fl_def Let_def m by simp
  then show ?thesis
    using assms(1,4) by simp
qed

lemma roundTiesToEven_near:
  assumes "\<bar>r - of_int n\<bar> < 1 / 2"
  shows "roundTiesToEven r = n"
proof (cases "of_int n \<le> r")
  case True
  then have "\<lfloor>r\<rfloor> = n"
    using assms by (simp add: floor_eq_iff abs_if split: if_splits)
  then show ?thesis
    using assms True by (simp add: roundTiesToEven_def Let_def abs_if)
next
  case False
  then have f: "\<lfloor>r\<rfloor> = n - 1"
    using assms by (simp add: floor_eq_iff abs_if split: if_splits)
  show ?thesis
    using assms False by (simp add: roundTiesToEven_def Let_def abs_if f)
qed

lemma roundTiesToEven_tie:
  assumes "r = of_int n + 1 / 2"
  shows "roundTiesToEven r = (if even n then n else n + 1)"
proof -
  have "\<lfloor>r\<rfloor> = n"
    using assms by (simp add: floor_eq_iff)
  then show ?thesis
    using assms by (simp add: roundTiesToEven_def Let_def)
qed

text \<open>The decimal literals \<open>0.1\<close> and \<open>0.2\<close>, and the sums and differences of the example.\<close>

lemma fl_tenth: "fl (1 / 10) = 7205759403792794 / 2 ^ 56"
proof -
  have e: "ilog2 (1 / 10) = - 4"
    by (rule ilog2_unique) (simp_all add: pow2_def)
  have r: "roundTiesToEven ((1 / 10) / pow2 (- 4 - 52)) = 7205759403792794"
    by (rule roundTiesToEven_near) (simp add: pow2_def)
  show ?thesis
    using fl_eval [OF _ e _ r] by (simp add: pow2_def)
qed

lemma fl_two_tenths: "fl (2 / 10) = 7205759403792794 / 2 ^ 55"
proof -
  have e: "ilog2 (2 / 10) = - 3"
    by (rule ilog2_unique) (simp_all add: pow2_def)
  have r: "roundTiesToEven ((2 / 10) / pow2 (- 3 - 52)) = 7205759403792794"
    by (rule roundTiesToEven_near) (simp add: pow2_def)
  show ?thesis
    using fl_eval [OF _ e _ r] by (simp add: pow2_def)
qed

lemma fl_sum: "fl (7205759403792794 / 2 ^ 56 + 7205759403792794 / 2 ^ 55) = 5404319552844596 / 2 ^ 54"
proof -
  let ?x = "7205759403792794 / 2 ^ 56 + 7205759403792794 / 2 ^ 55 :: rat"
  have e: "ilog2 ?x = - 2"
    by (rule ilog2_unique) (simp_all add: pow2_def)
  have "roundTiesToEven (?x / pow2 (- 2 - 52))
        = (if even (5404319552844595::int) then 5404319552844595 else 5404319552844595 + 1)"
    by (rule roundTiesToEven_tie) (simp add: pow2_def)
  then have r: "roundTiesToEven (?x / pow2 (- 2 - 52)) = 5404319552844596"
    by simp
  show ?thesis
    using fl_eval [OF _ e _ r] by (simp add: pow2_def)
qed

lemma fl_two_tenths_again: "fl (7205759403792794 / 2 ^ 55) = 7205759403792794 / 2 ^ 55"
proof -
  let ?x = "7205759403792794 / 2 ^ 55 :: rat"
  have e: "ilog2 ?x = - 3"
    by (rule ilog2_unique) (simp_all add: pow2_def)
  have r: "roundTiesToEven (?x / pow2 (- 3 - 52)) = 7205759403792794"
    by (rule roundTiesToEven_near) (simp add: pow2_def)
  show ?thesis
    using fl_eval [OF _ e _ r] by (simp add: pow2_def)
qed

lemma fl_tenth_again: "fl (7205759403792794 / 2 ^ 56) = 7205759403792794 / 2 ^ 56"
proof -
  let ?x = "7205759403792794 / 2 ^ 56 :: rat"
  have e: "ilog2 ?x = - 4"
    by (rule ilog2_unique) (simp_all add: pow2_def)
  have r: "roundTiesToEven (?x / pow2 (- 4 - 52)) = 7205759403792794"
    by (rule roundTiesToEven_near) (simp add: pow2_def)
  show ?thesis
    using fl_eval [OF _ e _ r] by (simp add: pow2_def)
qed

lemma fl_difference:
  "fl (5404319552844596 / 2 ^ 54 - 7205759403792794 / 2 ^ 55) = 7205759403792796 / 2 ^ 56"
proof -
  let ?x = "5404319552844596 / 2 ^ 54 - 7205759403792794 / 2 ^ 55 :: rat"
  have e: "ilog2 ?x = - 4"
    by (rule ilog2_unique) (simp_all add: pow2_def)
  have r: "roundTiesToEven (?x / pow2 (- 4 - 52)) = 7205759403792796"
    by (rule roundTiesToEven_near) (simp add: pow2_def)
  show ?thesis
    using fl_eval [OF _ e _ r] by (simp add: pow2_def)
qed

text \<open>\<open>2 ^ 53 + 1\<close> is halfway between two binary64 values and rounds to the even one.\<close>

lemma fl_big_plus_one: "fl (1 + 2 ^ 53) = 2 ^ 53"
proof -
  have e: "ilog2 (1 + 2 ^ 53) = 53"
    by (rule ilog2_unique) (simp_all add: pow2_def)
  have "roundTiesToEven ((1 + 2 ^ 53) / pow2 (53 - 52))
        = (if even (4503599627370496::int) then 4503599627370496 else 4503599627370496 + 1)"
    by (rule roundTiesToEven_tie) (simp add: pow2_def)
  then have r: "roundTiesToEven ((1 + 2 ^ 53) / pow2 (53 - 52)) = 4503599627370496"
    by simp
  show ?thesis
    using fl_eval [OF _ e _ r] by (simp add: pow2_def)
qed

lemma fl_big: "fl (2 ^ 53) = 2 ^ 53"
proof -
  have e: "ilog2 (2 ^ 53) = 53"
    by (rule ilog2_unique) (simp_all add: pow2_def)
  have r: "roundTiesToEven (2 ^ 53 / pow2 (53 - 52)) = 4503599627370496"
    by (rule roundTiesToEven_near) (simp add: pow2_def)
  show ?thesis
    using fl_eval [OF _ e _ r] by (simp add: pow2_def)
qed

lemma fl_one: "fl 1 = 1"
  using fl_of_int [of 1] by simp

subsection \<open>Rounding a number of days\<close>

lemma roundTiesToEven_half: "\<bar>of_int (roundTiesToEven r) - r\<bar> \<le> 1 / 2"
proof -
  let ?n = "\<lfloor>r\<rfloor>"
  have b: "of_int ?n \<le> r" "r < of_int ?n + 1"
    by linarith+
  consider (lo) "r - of_int ?n < 1 / 2" | (hi) "1 / 2 < r - of_int ?n"
    | (tie) "r - of_int ?n = 1 / 2"
    by linarith
  then show ?thesis
  proof cases
    case lo
    then have "roundTiesToEven r = ?n" by (simp add: roundTiesToEven_def Let_def)
    then show ?thesis using lo b by simp
  next
    case hi
    then have "roundTiesToEven r = ?n + 1" by (simp add: roundTiesToEven_def Let_def)
    then show ?thesis using hi b by simp
  next
    case tie
    then have "roundTiesToEven r = ?n \<or> roundTiesToEven r = ?n + 1"
      by (simp add: roundTiesToEven_def Let_def)
    then show ?thesis using tie by auto
  qed
qed

lemma ilog2_le:
  assumes "0 < a" and "a < 2 ^ n"
  shows "ilog2 a < int n"
proof (cases "1 \<le> a")
  case True
  have "\<lfloor>a\<rfloor> < 2 ^ n"
    using assms(2) by (simp add: floor_less_iff)
  then have "nat \<lfloor>a\<rfloor> < 2 ^ n"
    using True by (simp add: nat_less_iff)
  then have "floorlog 2 (nat \<lfloor>a\<rfloor>) \<le> n"
    by (simp add: floorlog_le_iff)
  then show ?thesis
    using True by (simp add: ilog2_def)
next
  case False
  have "1 < 1 / a" using assms(1) False by simp
  then have "1 < \<lceil>1 / a\<rceil>" by (simp add: less_ceiling_iff)
  then have "0 < nat (\<lceil>1 / a\<rceil> - 1)" by simp
  then have "0 < floorlog 2 (nat (\<lceil>1 / a\<rceil> - 1))"
    by (simp add: floorlog_def)
  then show ?thesis
    using False by (simp add: ilog2_def)
qed

text \<open>
  A quotient by the milliseconds of a day, below \<open>2 ^ 27\<close> days: it is rounded on a grid
  of spacing at most \<open>2 ^ - 26\<close>, finer than half a millisecond in days, so rounding
  never reaches or crosses a whole number of days.
\<close>

lemma fl_days_grid:
  assumes "0 < m" and "m < 2 ^ 53"
  shows "\<exists>k R. 26 \<le> k \<and> fl (of_int m / 86400000) = of_int R / 2 ^ k
               \<and> \<bar>of_int R - (of_int m / 86400000 :: rat) * 2 ^ k\<bar> \<le> 1 / 2"
proof -
  let ?y = "of_int m / 86400000 :: rat"
  have pos: "0 < ?y" using assms(1) by simp
  have "of_int m < (2 ^ 53 :: rat)"
    using assms(2) by (metis of_int_less_iff of_int_numeral of_int_power)
  then have "?y < 2 ^ 27" by simp
  then have "ilog2 ?y < 27" using ilog2_le [OF pos, of 27] by simp
  then have e: "max (ilog2 \<bar>?y\<bar>) (- 1022) \<le> 26" using pos by simp
  let ?e = "max (ilog2 \<bar>?y\<bar>) (- 1022)"
  let ?k = "nat (52 - ?e)"
  have k: "26 \<le> ?k" using e by simp
  have q: "pow2 (?e - 52) = 1 / 2 ^ ?k"
    using e by (simp add: pow2_neg)
  let ?R = "roundTiesToEven (?y * 2 ^ ?k)"
  have r: "\<bar>?y\<bar> / pow2 (?e - 52) = ?y * 2 ^ ?k"
    unfolding q using pos by simp
  have "fl ?y = sgn ?y * of_int (roundTiesToEven (\<bar>?y\<bar> / pow2 (?e - 52))) * pow2 (?e - 52)"
    using pos by (simp add: fl_def Let_def)
  also have "\<dots> = of_int ?R / 2 ^ ?k"
    unfolding r q using pos by simp
  finally have "fl ?y = of_int ?R / 2 ^ ?k" .
  then show ?thesis
    using k roundTiesToEven_half [of "?y * 2 ^ ?k"] by blast
qed

lemma fl_days_order:
  assumes "0 < m" and "m < 2 ^ 53"
  shows "(of_int J < (of_int m / 86400000 :: rat) \<longrightarrow> of_int J < fl (of_int m / 86400000))
       \<and> ((of_int m / 86400000 :: rat) < of_int J \<longrightarrow> fl (of_int m / 86400000) < of_int J)
       \<and> ((of_int m / 86400000 :: rat) \<le> of_int J \<longrightarrow> fl (of_int m / 86400000) \<le> of_int J)
       \<and> (of_int J \<le> (of_int m / 86400000 :: rat) \<longrightarrow> of_int J \<le> fl (of_int m / 86400000))"
proof -
  let ?y = "of_int m / 86400000 :: rat"
  obtain k R where k: "26 \<le> k" and f: "fl ?y = of_int R / 2 ^ k"
    and near: "\<bar>of_int R - ?y * 2 ^ k\<bar> \<le> 1 / 2"
    using fl_days_grid [OF assms] by blast
  let ?P = "2 ^ k :: rat"
  have "(2::rat) ^ 26 \<le> 2 ^ k" using k by (intro power_increasing) simp_all
  then have P: "67108864 \<le> ?P" by simp
  then have step: "1 / 2 < ?P / 86400000" by simp
  have Ppos: "0 < ?P" by simp
  have up: "of_int J < fl ?y" if "of_int J < ?y"
  proof -
    have "of_int J * 86400000 < (of_int m :: rat)" using that by (simp add: field_simps)
    then have "(of_int (J * 86400000) :: rat) < of_int m" by simp
    then have "J * 86400000 < m" by (simp only: of_int_less_iff)
    then have "1 \<le> m - J * 86400000" by simp
    then have "(1::rat) \<le> of_int (m - J * 86400000)" by (metis of_int_1_le_iff)
    then have "1 * (?P / 86400000) \<le> of_int (m - J * 86400000) * (?P / 86400000)"
      by (intro mult_right_mono) simp_all
    then have "?P / 86400000 \<le> ?y * ?P - of_int J * ?P"
      by (simp add: field_simps)
    then have "of_int J * ?P < of_int R" using step near by linarith
    then have "of_int J < of_int R / ?P" using Ppos by (simp add: field_simps)
    then show ?thesis by (simp add: f)
  qed
  have down: "fl ?y < of_int J" if "?y < of_int J"
  proof -
    have "(of_int m :: rat) < of_int J * 86400000" using that by (simp add: field_simps)
    then have "(of_int m :: rat) < of_int (J * 86400000)" by simp
    then have "m < J * 86400000" by (simp only: of_int_less_iff)
    then have "1 \<le> J * 86400000 - m" by simp
    then have "(1::rat) \<le> of_int (J * 86400000 - m)" by (metis of_int_1_le_iff)
    then have "1 * (?P / 86400000) \<le> of_int (J * 86400000 - m) * (?P / 86400000)"
      by (intro mult_right_mono) simp_all
    then have "?P / 86400000 \<le> of_int J * ?P - ?y * ?P"
      by (simp add: field_simps)
    then have "of_int R < of_int J * ?P" using step near by linarith
    then have "of_int R / ?P < of_int J" using Ppos by (simp add: field_simps)
    then show ?thesis by (simp add: f)
  qed
  have le: "fl ?y \<le> of_int J" if "?y \<le> of_int J"
  proof -
    have "?y * ?P \<le> of_int J * ?P" using that Ppos by simp
    then have "of_int R < of_int J * ?P + 1" using near by linarith
    then have "of_int R < (of_int (J * 2 ^ k + 1) :: rat)" by simp
    then have "R < J * 2 ^ k + 1" by (simp only: of_int_less_iff)
    then have "R \<le> J * 2 ^ k" by simp
    then have "(of_int R :: rat) \<le> of_int (J * 2 ^ k)" by (simp only: of_int_le_iff)
    then have "of_int R / ?P \<le> of_int J" using Ppos by (simp add: field_simps)
    then show ?thesis by (simp add: f)
  qed
  have ge: "of_int J \<le> fl ?y" if "of_int J \<le> ?y"
  proof -
    have "of_int J * ?P \<le> ?y * ?P" using that Ppos by simp
    then have "of_int J * ?P - 1 < of_int R" using near by linarith
    then have "(of_int (J * 2 ^ k - 1) :: rat) < of_int R" by simp
    then have "J * 2 ^ k - 1 < R" by (simp only: of_int_less_iff)
    then have "J * 2 ^ k \<le> R" by simp
    then have "(of_int (J * 2 ^ k) :: rat) \<le> of_int R" by (simp only: of_int_le_iff)
    then have "of_int J \<le> of_int R / ?P" using Ppos by (simp add: field_simps)
    then show ?thesis by (simp add: f)
  qed
  show ?thesis using up down le ge by blast
qed

lemma fl_minus: "fl (- x) = - fl x"
  by (simp add: fl_def Let_def sgn_minus)

text \<open>\<open>Math.ceil\<close> of the rounded quotient is the ceiling of the exact quotient.\<close>

lemma ceiling_fl_days:
  assumes "\<bar>n\<bar> < 2 ^ 53"
  shows "\<lceil>fl (of_int n / 86400000)\<rceil> = \<lceil>(of_int n / 86400000 :: rat)\<rceil>"
proof -
  let ?x = "of_int n / 86400000 :: rat"
  consider "n = 0" | "0 < n" | "n < 0" by linarith
  then show ?thesis
  proof cases
    case 1
    then show ?thesis by (simp add: fl_def)
  next
    case 2
    then have m: "0 < n" "n < 2 ^ 53" using assms by simp_all
    let ?N = "\<lceil>?x\<rceil>"
    have "of_int (?N - 1) < ?x" and "?x \<le> of_int ?N"
      by linarith+
    then have "of_int (?N - 1) < fl ?x" and "fl ?x \<le> of_int ?N"
      using fl_days_order [OF m, of "?N - 1"] fl_days_order [OF m, of ?N] by blast+
    then show ?thesis
      by (simp add: ceiling_eq_iff)
  next
    case 3
    then have m: "0 < - n" "- n < 2 ^ 53" using assms by simp_all
    let ?y = "of_int (- n) / 86400000 :: rat"
    let ?F = "\<lfloor>?y\<rfloor>"
    have "of_int ?F \<le> ?y" and "?y < of_int (?F + 1)"
      by linarith+
    then have "of_int ?F \<le> fl ?y" and "fl ?y < of_int (?F + 1)"
      using fl_days_order [OF m, of ?F] fl_days_order [OF m, of "?F + 1"] by blast+
    then have "\<lfloor>fl ?y\<rfloor> = ?F"
      by (simp add: floor_eq_iff)
    moreover have "?x = - ?y" by simp
    ultimately show ?thesis
      by (simp only: fl_minus ceiling_minus) 
  qed
qed

subsection \<open>The binary exponent and the values of \<open>fl\<close>\<close>

lemma pow2_power_int: "pow2 e = power_int 2 e"
  by (simp add: pow2_def power_int_def power_inverse [symmetric] inverse_eq_divide
        power_one_over)

lemma pow2_add: "pow2 (d + e) = pow2 d * pow2 e"
  by (simp add: pow2_power_int power_int_add)

lemma pow2_scale: "pow2 d = 2 ^ n * pow2 (d - int n)"
  using pow2_add [of "int n" "d - int n"] by (simp add: pow2_nat)

lemma pow2_neg_nat: "pow2 (- int n) = 1 / 2 ^ n"
  by (cases "n = 0") (simp_all add: pow2_def)

lemma pow2_less_cancel:
  assumes "pow2 d \<le> x" and "x < pow2 e"
  shows "d < e"
proof (rule ccontr)
  assume "\<not> d < e"
  then have "pow2 e \<le> pow2 d" by (intro pow2_mono) simp
  then show False using assms by simp
qed

lemma floorlog_floor_bounds:
  fixes a :: rat
  assumes "1 < b" and "1 \<le> a"
  shows "1 \<le> floorlog b (nat \<lfloor>a\<rfloor>)"
    and "of_nat b ^ (floorlog b (nat \<lfloor>a\<rfloor>) - 1) \<le> a"
    and "a < of_nat b ^ floorlog b (nat \<lfloor>a\<rfloor>)"
proof -
  let ?n = "nat \<lfloor>a\<rfloor>"
  let ?L = "floorlog b ?n"
  have f: "1 \<le> \<lfloor>a\<rfloor>" using assms(2) by simp
  then have n: "0 < ?n" by simp
  have b: "b ^ (?L - 1) \<le> ?n" "?n < b ^ ?L"
    using floorlog_bounds [OF n assms(1)] by simp_all
  show "1 \<le> ?L"
    using n assms(1) by (simp add: floorlog_def)
  have "(of_nat (b ^ (?L - 1)) :: rat) \<le> of_nat ?n"
    using b(1) by (simp only: of_nat_le_iff)
  also have "(of_nat ?n :: rat) = of_int \<lfloor>a\<rfloor>" using f by simp
  also have "\<dots> \<le> a" by simp
  finally show "of_nat b ^ (?L - 1) \<le> a" by simp
  have "?n + 1 \<le> b ^ ?L" using b(2) by simp
  then have "(of_nat (?n + 1) :: rat) \<le> of_nat (b ^ ?L)"
    by (simp only: of_nat_le_iff)
  moreover have "(of_nat (?n + 1) :: rat) = of_int \<lfloor>a\<rfloor> + 1" using f by simp
  moreover have "a < of_int \<lfloor>a\<rfloor> + 1" by linarith
  ultimately show "a < of_nat b ^ ?L" by simp
qed

lemma floorlog_ceiling_bounds:
  fixes a :: rat
  assumes "1 < b" and "0 < a" and "a < 1"
  shows "1 \<le> floorlog b (nat (\<lceil>1 / a\<rceil> - 1))"
    and "1 / of_nat b ^ floorlog b (nat (\<lceil>1 / a\<rceil> - 1)) \<le> a"
    and "a < 1 / of_nat b ^ (floorlog b (nat (\<lceil>1 / a\<rceil> - 1)) - 1)"
proof -
  let ?c = "\<lceil>1 / a\<rceil>"
  let ?j = "nat (?c - 1)"
  let ?L = "floorlog b ?j"
  have "1 < 1 / a" using assms(2,3) by simp
  then have "1 < ?c" by (simp add: less_ceiling_iff)
  then have c: "2 \<le> ?c" by simp
  then have j: "0 < ?j" by simp
  have b: "b ^ (?L - 1) \<le> ?j" "?j < b ^ ?L"
    using floorlog_bounds [OF j assms(1)] by simp_all
  have bpos: "0 < (of_nat b :: rat) ^ k" for k using assms(1) by simp
  have "int ?j = ?c - 1" using c by (intro nat_0_le) linarith
  then have "(of_int (int ?j) :: rat) = of_int (?c - 1)" by (simp only:)
  then have jc: "(of_nat ?j :: rat) = of_int ?c - 1"
    by (simp only: of_int_of_nat_eq of_int_diff of_int_1)
  show "1 \<le> ?L"
    using j assms(1) by (simp add: floorlog_def)
  have j1: "?j + 1 \<le> b ^ ?L" using b(2) by simp
  have "1 / a \<le> of_int ?c" by (rule le_of_int_ceiling)
  also have "of_int ?c = (of_nat (?j + 1) :: rat)" by (simp add: jc)
  also have "\<dots> \<le> of_nat (b ^ ?L)" using j1 by (simp only: of_nat_le_iff)
  finally have "1 / a \<le> of_nat b ^ ?L" by simp
  then show "1 / of_nat b ^ ?L \<le> a"
    using assms(2) bpos [of ?L] by (simp add: field_simps)
  have "(of_nat (b ^ (?L - 1)) :: rat) \<le> of_nat ?j"
    using b(1) by (simp only: of_nat_le_iff)
  moreover note jc
  moreover have "of_int ?c - 1 < 1 / a" by linarith
  ultimately have "of_nat b ^ (?L - 1) < 1 / a" by simp
  then show "a < 1 / of_nat b ^ (?L - 1)"
    using assms(2) bpos [of "?L - 1"] by (simp add: field_simps)
qed

lemma ilog2_bounds:
  assumes "0 < a"
  shows "pow2 (ilog2 a) \<le> a" and "a < pow2 (ilog2 a + 1)"
proof -
  have "pow2 (ilog2 a) \<le> a \<and> a < pow2 (ilog2 a + 1)"
  proof (cases "1 \<le> a")
    case True
    let ?L = "floorlog 2 (nat \<lfloor>a\<rfloor>)"
    have L: "1 \<le> ?L" "of_nat 2 ^ (?L - 1) \<le> a" "a < of_nat 2 ^ ?L"
      using floorlog_floor_bounds [of 2 a] True by simp_all
    have "ilog2 a = int (?L - 1)" using True L(1) by (simp add: ilog2_def)
    then have "pow2 (ilog2 a) = 2 ^ (?L - 1)" "pow2 (ilog2 a + 1) = 2 ^ ?L"
      using L(1) pow2_nat [of "?L - 1"] pow2_nat [of ?L] by (simp_all add: of_nat_diff)
    then show ?thesis using L(2,3) by simp
  next
    case False
    let ?L = "floorlog 2 (nat (\<lceil>1 / a\<rceil> - 1))"
    have L: "1 \<le> ?L" "1 / of_nat 2 ^ ?L \<le> a" "a < 1 / of_nat 2 ^ (?L - 1)"
      using floorlog_ceiling_bounds [of 2 a] False assms by simp_all
    have e: "ilog2 a = - int ?L" using False by (simp add: ilog2_def)
    have "pow2 (ilog2 a) = 1 / 2 ^ ?L"
      by (simp only: e pow2_neg_nat)
    moreover have "int (?L - 1) = int ?L - 1" using L(1) by linarith
    then have "ilog2 a + 1 = - int (?L - 1)" by (simp add: e)
    then have "pow2 (ilog2 a + 1) = 1 / 2 ^ (?L - 1)"
      by (simp only: pow2_neg_nat)
    ultimately show ?thesis using L(2,3) by simp
  qed
  then show "pow2 (ilog2 a) \<le> a" and "a < pow2 (ilog2 a + 1)" by simp_all
qed

lemma roundTiesToEven_between:
  "of_int m \<le> r \<Longrightarrow> m \<le> roundTiesToEven r"
  "r \<le> of_int n \<Longrightarrow> roundTiesToEven r \<le> n"
proof -
  assume "of_int m \<le> r"
  then have "m \<le> \<lfloor>r\<rfloor>" by (simp add: le_floor_iff)
  then show "m \<le> roundTiesToEven r" by (simp add: roundTiesToEven_def Let_def)
next
  assume a: "r \<le> of_int n"
  show "roundTiesToEven r \<le> n"
  proof (cases "r = of_int n")
    case True
    then show ?thesis by (simp add: roundTiesToEven_of_int)
  next
    case False
    then have "r < of_int n" using a by simp
    then have "\<lfloor>r\<rfloor> < n" by (simp add: floor_less_iff)
    then show ?thesis by (simp add: roundTiesToEven_def Let_def)
  qed
qed

lemma fl_eval_max:
  assumes "0 < x" and "max (ilog2 x) (- 1022) = e"
    and "roundTiesToEven (x / pow2 (e - 52)) = n"
  shows "fl x = of_int n * pow2 (e - 52)"
proof -
  have m: "max (ilog2 \<bar>x\<bar>) (- 1022) = e"
    using assms(1,2) by simp
  have "fl x = sgn x * of_int (roundTiesToEven (\<bar>x\<bar> / pow2 (e - 52))) * pow2 (e - 52)"
    using assms(1) unfolding fl_def Let_def m by simp
  then show ?thesis using assms(1,3) by simp
qed

text \<open>The binary64 values: \<open>R * 2 ^ (e - 52)\<close> with \<open>R\<close> of 53 bits, or fewer at the least exponent.\<close>

lemma fl_grid_point:
  assumes "- 1022 \<le> e" and "0 \<le> R" and "R \<le> 2 ^ 53" and "e = - 1022 \<or> 2 ^ 52 \<le> R"
  shows "fl (of_int R * pow2 (e - 52)) = of_int R * pow2 (e - 52)"
proof (cases "R = 0")
  case True
  then show ?thesis by (simp add: fl_def)
next
  case False
  let ?q = "pow2 (e - 52)"
  let ?v = "of_int R * ?q :: rat"
  have q: "0 < ?q" by (rule pow2_pos)
  have R: "0 < R" using False assms(2) by simp
  then have v: "0 < ?v" using q by simp
  have e0: "pow2 e = 2 ^ 52 * ?q"
    using pow2_scale [of e 52] by simp
  have e1: "pow2 (e + 1) = 2 ^ 53 * ?q"
    using pow2_scale [of "e + 1" 53] by simp
  have e2: "pow2 (e + 1 + 1) = 2 ^ 54 * ?q"
    using pow2_scale [of "e + 1 + 1" 54] by simp
  have q1: "pow2 (e + 1 - 52) = 2 * ?q"
    using pow2_add1 [of "e - 52"] by (simp add: algebra_simps)
  consider (top) "R = 2 ^ 53" | (normal) "2 ^ 52 \<le> R" "R < 2 ^ 53" | (sub) "R < 2 ^ 52"
    using assms(3) by linarith
  then show ?thesis
  proof cases
    case top
    have vv: "?v = 2 ^ 53 * ?q" by (simp add: top)
    have "pow2 (e + 1) \<le> ?v" unfolding e1 vv by simp
    moreover have "?v < pow2 (e + 1 + 1)" unfolding e2 vv using q by simp
    ultimately have "ilog2 ?v = e + 1" by (rule ilog2_unique)
    moreover have "roundTiesToEven (?v / pow2 (e + 1 - 52)) = 2 ^ 52"
      unfolding q1 vv using q roundTiesToEven_of_int [of "2 ^ 52"] by simp
    ultimately have "fl ?v = of_int (2 ^ 52) * pow2 (e + 1 - 52)"
      using v assms(1) by (intro fl_eval) simp_all
    then show ?thesis unfolding q1 vv by simp
  next
    case normal
    have "(of_int (2 ^ 52) :: rat) \<le> of_int R" "(of_int R :: rat) < of_int (2 ^ 53)"
      using normal by (simp_all only: of_int_le_iff of_int_less_iff)
    then have "pow2 e \<le> ?v" "?v < pow2 (e + 1)"
      unfolding e0 e1 using q by simp_all
    then have "ilog2 ?v = e" by (rule ilog2_unique)
    moreover have "roundTiesToEven (?v / ?q) = R"
      using q by (simp add: roundTiesToEven_of_int)
    ultimately show ?thesis
      using v assms(1) by (intro fl_eval) simp_all
  next
    case sub
    then have e: "e = - 1022" using assms(4) by simp
    have "(of_int R :: rat) < of_int (2 ^ 52)"
      using sub by (simp only: of_int_less_iff)
    then have "?v < pow2 e" unfolding e0 using q by simp
    then have "ilog2 ?v < e"
      using ilog2_bounds(1) [OF v] by (rule pow2_less_cancel [rotated])
    then have "max (ilog2 ?v) (- 1022) = e" by (simp add: e)
    moreover have "roundTiesToEven (?v / ?q) = R"
      using q by (simp add: roundTiesToEven_of_int)
    ultimately show ?thesis
      using v by (intro fl_eval_max) simp_all
  qed
qed

lemma fl_is_grid_point:
  assumes "x \<noteq> 0"
  shows "\<exists>e R. - 1022 \<le> e \<and> 0 \<le> R \<and> R \<le> 2 ^ 53 \<and> (e = - 1022 \<or> 2 ^ 52 \<le> R)
               \<and> fl x = sgn x * (of_int R * pow2 (e - 52))"
proof -
  let ?a = "\<bar>x\<bar>"
  let ?e = "max (ilog2 ?a) (- 1022)"
  let ?q = "pow2 (?e - 52)"
  let ?R = "roundTiesToEven (?a / ?q)"
  have a: "0 < ?a" using assms by simp
  have q: "0 < ?q" by (rule pow2_pos)
  have e1: "pow2 (?e + 1) = 2 ^ 53 * ?q"
    using pow2_scale [of "?e + 1" 53] by simp
  have e0: "pow2 ?e = 2 ^ 52 * ?q"
    using pow2_scale [of ?e 52] by simp
  have "(of_int 0 :: rat) \<le> ?a / ?q" using a q by simp
  then have R0: "0 \<le> ?R" by (rule roundTiesToEven_between)
  have "?a < pow2 (ilog2 ?a + 1)" using a by (rule ilog2_bounds)
  also have "\<dots> \<le> pow2 (?e + 1)" by (intro pow2_mono) simp
  finally have "?a < 2 ^ 53 * ?q" unfolding e1 .
  then have "?a / ?q \<le> of_int (2 ^ 53)" using q by (simp add: field_simps)
  then have R1: "?R \<le> 2 ^ 53" by (rule roundTiesToEven_between)
  have R2: "?e = - 1022 \<or> 2 ^ 52 \<le> ?R"
  proof (cases "?e = - 1022")
    case True
    then show ?thesis by blast
  next
    case False
    then have "?e = ilog2 ?a" by linarith
    then have "pow2 ?e \<le> ?a" using ilog2_bounds(1) [OF a] by simp
    then have "2 ^ 52 * ?q \<le> ?a" unfolding e0 .
    then have "of_int (2 ^ 52) \<le> ?a / ?q" using q by (simp add: field_simps)
    then have "2 ^ 52 \<le> ?R" by (rule roundTiesToEven_between)
    then show ?thesis by blast
  qed
  have "fl x = sgn x * (of_int ?R * ?q)"
    using assms by (simp add: fl_def Let_def)
  then show ?thesis
    using R0 R1 R2 by (intro exI [of _ ?e] exI [of _ ?R]) simp
qed

text \<open>Rounding a binary64 value again changes nothing.\<close>

lemma fl_idem: "fl (fl x) = fl x"
proof (cases "x = 0")
  case True
  then show ?thesis by (simp add: fl_def)
next
  case False
  then obtain e R where g: "- 1022 \<le> e" "0 \<le> R" "R \<le> 2 ^ 53" "e = - 1022 \<or> 2 ^ 52 \<le> R"
    and f: "fl x = sgn x * (of_int R * pow2 (e - 52))"
    using fl_is_grid_point by blast
  have v: "fl (of_int R * pow2 (e - 52)) = of_int R * pow2 (e - 52)"
    using g by (rule fl_grid_point)
  show ?thesis
  proof (cases "0 < x")
    case True
    then show ?thesis using v by (simp add: f)
  next
    case neg: False
    then have "x < 0" using False by simp
    then show ?thesis using v fl_minus [of "of_int R * pow2 (e - 52)"] by (simp add: f)
  qed
qed

lemma fl_nonneg:
  assumes "0 \<le> x"
  shows "0 \<le> fl x"
proof (cases "x = 0")
  case True
  then show ?thesis by (simp add: fl_def)
next
  case False
  let ?q = "pow2 (max (ilog2 \<bar>x\<bar>) (- 1022) - 52)"
  have q: "0 < ?q" by (rule pow2_pos)
  have "(of_int 0 :: rat) \<le> \<bar>x\<bar> / ?q" using q by simp
  then have "0 \<le> roundTiesToEven (\<bar>x\<bar> / ?q)" by (rule roundTiesToEven_between)
  then show ?thesis
    using assms False q by (simp add: fl_def Let_def less_imp_le)
qed

lemma fl_abs: "fl \<bar>x\<bar> = \<bar>fl x\<bar>"
proof (cases "0 \<le> x")
  case True
  then show ?thesis using fl_nonneg [of x] by simp
next
  case False
  then have "0 \<le> fl (- x)" by (intro fl_nonneg) simp
  then show ?thesis using False by (simp add: fl_minus)
qed
text \<open>Rounding moves a number by at most half a unit in its last place.\<close>

lemma fl_error:
  "\<bar>fl z - z\<bar> \<le> pow2 (max (ilog2 \<bar>z\<bar>) (- 1022) - 53)"
proof (cases "z = 0")
  case True
  then show ?thesis by (simp add: fl_def less_imp_le pow2_pos)
next
  case False
  let ?a = "\<bar>z\<bar>"
  let ?e = "max (ilog2 ?a) (- 1022)"
  let ?q = "pow2 (?e - 52)"
  let ?R = "roundTiesToEven (?a / ?q)"
  have q: "0 < ?q" by (rule pow2_pos)
  have half: "?q = 2 * pow2 (?e - 53)"
    using pow2_add1 [of "?e - 53"] by simp
  have f: "fl z = sgn z * (of_int ?R * ?q)"
    using False by (simp add: fl_def Let_def)
  have "z = sgn z * ?a" by (simp add: sgn_mult_abs)
  then have "fl z - z = sgn z * (of_int ?R * ?q - ?a)"
    unfolding f by (simp add: algebra_simps)
  then have "\<bar>fl z - z\<bar> = \<bar>of_int ?R * ?q - ?a\<bar>"
    using False by (simp add: abs_mult abs_sgn_eq)
  also have "of_int ?R * ?q - ?a = (of_int ?R - ?a / ?q) * ?q"
    using q by (simp add: field_simps)
  also have "\<bar>\<dots>\<bar> = \<bar>of_int ?R - ?a / ?q\<bar> * ?q"
    using q by (simp add: abs_mult)
  also have "\<dots> \<le> (1 / 2) * ?q"
    using roundTiesToEven_half [of "?a / ?q"] q by (intro mult_right_mono) simp_all
  also have "\<dots> = pow2 (?e - 53)"
    using half by simp
  finally show ?thesis .
qed

lemma fl_error_below:
  assumes "\<bar>z\<bar> < 2 ^ n"
  shows "\<bar>fl z - z\<bar> \<le> pow2 (int n - 54)"
proof (cases "z = 0")
  case True
  then show ?thesis by (simp add: fl_def less_imp_le pow2_pos)
next
  case False
  then have "ilog2 \<bar>z\<bar> < int n" using assms by (intro ilog2_le) simp_all
  then have "max (ilog2 \<bar>z\<bar>) (- 1022) - 53 \<le> int n - 54" by simp
  then have "pow2 (max (ilog2 \<bar>z\<bar>) (- 1022) - 53) \<le> pow2 (int n - 54)"
    by (rule pow2_mono)
  then show ?thesis using fl_error [of z] by simp
qed

text \<open>Rounding does not leave the binade from below.\<close>

lemma fl_lower:
  assumes "- 1022 \<le> e" and "pow2 e \<le> \<bar>z\<bar>"
  shows "pow2 e \<le> \<bar>fl z\<bar>"
proof -
  let ?a = "\<bar>z\<bar>"
  let ?e = "max (ilog2 ?a) (- 1022)"
  let ?q = "pow2 (?e - 52)"
  let ?R = "roundTiesToEven (?a / ?q)"
  have a: "0 < ?a" using assms(2) pow2_pos [of e] by linarith
  then have z: "z \<noteq> 0" by simp
  have q: "0 < ?q" by (rule pow2_pos)
  have "e < ilog2 ?a + 1"
    using assms(2) ilog2_bounds(2) [OF a] by (rule pow2_less_cancel)
  then have e: "?e = ilog2 ?a" "e \<le> ?e" using assms(1) by simp_all
  have e0: "pow2 ?e = 2 ^ 52 * ?q"
    using pow2_scale [of ?e 52] by simp
  have "pow2 ?e \<le> ?a" using ilog2_bounds(1) [OF a] e(1) by simp
  then have "2 ^ 52 * ?q \<le> ?a" unfolding e0 .
  then have "of_int (2 ^ 52) \<le> ?a / ?q" using q by (simp add: field_simps)
  then have R: "2 ^ 52 \<le> ?R" by (rule roundTiesToEven_between)
  then have "(of_int (2 ^ 52) :: rat) \<le> of_int ?R" by (simp only: of_int_le_iff)
  then have "2 ^ 52 * ?q \<le> of_int ?R * ?q" using q by simp
  moreover have "fl z = sgn z * (of_int ?R * ?q)"
    using z by (simp add: fl_def Let_def)
  then have "\<bar>fl z\<bar> = of_int ?R * ?q"
    using z R q by (simp add: abs_mult abs_sgn_eq)
  ultimately have "pow2 ?e \<le> \<bar>fl z\<bar>" unfolding e0 by simp
  moreover have "pow2 e \<le> pow2 ?e" using e(2) by (rule pow2_mono)
  ultimately show ?thesis by simp
qed

section \<open>Flags: the threshold\<close>

lemma js_sub_time:
  assumes "\<bar>today - t\<bar> < 2 ^ 53"
  shows "js_sub (of_int today) (of_int t) = of_int (today - t)"
  using fl_of_int [OF assms] by (simp add: js_sub_def)

lemma diffDays_exact:
  assumes "\<bar>today - t\<bar> < 2 ^ 53"
  shows "diffDays (diffTime today (Some t))
         = Some \<lceil>(of_int (today - t) / 86400000 :: rat)\<rceil>"
  using js_sub_time [OF assms] ceiling_fl_days [OF assms]
  by (simp add: diffDays_def diffTime_def js_div_def)

lemma js_div_whole_days:
  assumes "\<bar>k\<bar> < 2 ^ 53"
  shows "js_div (of_int (k * 86400000)) (1000 * 60 * 60 * 24) = of_int k"
  using fl_of_int [OF assms] by (simp add: js_div_def)

lemma diffDays_whole_days:
  assumes "today - t = k * 86400000" and "\<bar>k\<bar> < 2 ^ 26"
  shows "diffDays (diffTime today (Some t)) = Some k"
proof -
  have "\<bar>k * 86400000\<bar> < 2 ^ 26 * 86400000"
    using assms(2) by (simp add: abs_mult)
  then have "\<bar>today - t\<bar> < 2 ^ 53"
    using assms(1) by simp
  then have "js_sub (of_int today) (of_int t) = of_int (k * 86400000)"
    using js_sub_time assms(1) by simp
  moreover have "\<bar>k\<bar> < 2 ^ 53"
    using assms(2) by simp
  ultimately show ?thesis
    using js_div_whole_days [of k] by (simp add: diffDays_def diffTime_def)
qed

text \<open>
  Claim C5. With \<open>diffDays = ceil ((today - request_date) / one day)\<close>, computed as the
  source computes it (and equal to the ceiling of the exact quotient for time values less
  than \<open>2 ^ 53\<close> ms apart), \<open>getReportFlag\<close> gives the green flag whenever
  \<open>diffDays \<le> 1\<close> and the red flag whenever \<open>diffDays \<ge> 2\<close>; a request date exactly
  one day before \<open>today\<close> gives green and one exactly two days before gives red.
\<close>

theorem getReportFlag_threshold:
  assumes "D (request_date r) = Some t"
  shows "diffDays (diffTime today (D (request_date r)))
           = Some \<lceil>js_div (js_sub (of_int today) (of_int t)) (1000 * 60 * 60 * 24)\<rceil>
       \<and> (\<forall>n. diffDays (diffTime today (D (request_date r))) = Some n \<longrightarrow>
              (n \<le> 1 \<longrightarrow> getReportFlag D today r = Some GreenFlag) \<and>
              (2 \<le> n \<longrightarrow> getReportFlag D today r = Some RedFlag))
       \<and> (\<bar>today - t\<bar> < 2 ^ 53 \<longrightarrow>
            diffDays (diffTime today (D (request_date r)))
            = Some \<lceil>(of_int (today - t) / 86400000 :: rat)\<rceil>)
       \<and> (today - t = 86400000 \<longrightarrow> getReportFlag D today r = Some GreenFlag)
       \<and> (today - t = 2 * 86400000 \<longrightarrow> getReportFlag D today r = Some RedFlag)"
proof -
  have exact: "\<bar>today - t\<bar> < 2 ^ 53 \<Longrightarrow>
      diffDays (diffTime today (Some t)) = Some \<lceil>(of_int (today - t) / 86400000 :: rat)\<rceil>"
    by (rule diffDays_exact)
  have one: "today - t = 86400000 \<Longrightarrow> diffDays (diffTime today (Some t)) = Some 1"
    using diffDays_whole_days [of today t 1] by simp
  have two: "today - t = 2 * 86400000 \<Longrightarrow> diffDays (diffTime today (Some t)) = Some 2"
    using diffDays_whole_days [of today t 2] by simp
  have rule: "diffDays (diffTime today (Some t))
           = Some \<lceil>js_div (js_sub (of_int today) (of_int t)) (1000 * 60 * 60 * 24)\<rceil>"
    by (simp add: diffDays_def diffTime_def)
  have flags: "\<forall>n. diffDays (diffTime today (Some t)) = Some n \<longrightarrow>
              (n \<le> 1 \<longrightarrow> getReportFlag D today r = Some GreenFlag) \<and>
              (2 \<le> n \<longrightarrow> getReportFlag D today r = Some RedFlag)"
    using assms by (simp add: getReportFlag_def)
  have green: "today - t = 86400000 \<longrightarrow> getReportFlag D today r = Some GreenFlag"
    using assms one by (simp add: getReportFlag_def)
  have red: "today - t = 2 * 86400000 \<longrightarrow> getReportFlag D today r = Some RedFlag"
    using assms two by (simp add: getReportFlag_def)
  show ?thesis
    unfolding assms using rule flags exact green red by blast
qed

text \<open>
  The example of C5: at 2024-03-10 12:00 UTC a request of 2024-03-09 12:00 is green and
  one of 2024-03-08 12:00 is red.
\<close>

theorem getReportFlag_threshold_witness:
  "getReportFlag sample_dates 1710072000000 sample_report = Some GreenFlag
   \<and> getReportFlag sample_dates 1710072000000
        (sample_report\<lparr>request_date := ''2024-03-08T12:00:00Z''\<rparr>) = Some RedFlag"
proof -
  have a: "sample_dates (request_date sample_report) = Some 1709985600000"
    by (simp add: sample_dates_def sample_report_def)
  have b: "sample_dates (request_date (sample_report\<lparr>request_date := ''2024-03-08T12:00:00Z''\<rparr>))
             = Some 1709899200000"
    by (simp add: sample_dates_def)
  show ?thesis
    using
      getReportFlag_threshold [where D = sample_dates and r = sample_report
        and t = 1709985600000 and today = 1710072000000]
      getReportFlag_threshold [where D = sample_dates
        and r = "sample_report\<lparr>request_date := ''2024-03-08T12:00:00Z''\<rparr>"
        and t = 1709899200000 and today = 1710072000000]
      a b
    by simp
qed

text \<open>
  Claim C6. At the same current time, \<open>isReportOverdue\<close> holds of a report exactly when
  \<open>getReportFlag\<close> gives it the red flag: both apply the threshold \<open>diffDays \<ge> 2\<close>,
  and both give the negative answer when the request date does not parse.
\<close>

theorem isReportOverdue_iff_red:
  "isReportOverdue D today r = (getReportFlag D today r = Some RedFlag)"
  by (cases "diffDays (diffTime today (D (request_date r)))")
     (auto simp: isReportOverdue_def getReportFlag_def)

text \<open>
  Claim C10. For a report whose request date parses, \<open>getReportFlag\<close> returns the green
  or the red flag: \<open>diffDays\<close> is an integer, and \<open>diffDays \<le> 1\<close> and \<open>diffDays \<ge> 2\<close>
  cover the integers, so the final \<open>return null\<close> is not reached.
\<close>

theorem getReportFlag_not_null:
  assumes "D (request_date r) = Some t"
  shows "getReportFlag D today r = Some GreenFlag \<or> getReportFlag D today r = Some RedFlag"
  using assms by (auto simp: getReportFlag_def diffDays_def diffTime_def)

text \<open>An instance of C10: the sample report, whose request date parses.\<close>

theorem getReportFlag_not_null_witness:
  "getReportFlag sample_dates 0 sample_report = Some GreenFlag
   \<or> getReportFlag sample_dates 0 sample_report = Some RedFlag"
proof -
  have a: "sample_dates (request_date sample_report) = Some 1709985600000"
    by (simp add: sample_dates_def sample_report_def)
  show ?thesis
    using getReportFlag_not_null [where D = sample_dates and r = sample_report
        and t = 1709985600000 and today = 0] a
    by simp
qed

text \<open>The \<open>null\<close> result is that of a request date that does not parse, and only that.\<close>

lemma getReportFlag_null_iff:
  "getReportFlag D today r = None \<longleftrightarrow> D (request_date r) = None"
  by (cases "D (request_date r)") (auto simp: getReportFlag_def diffDays_def diffTime_def)

section \<open>Working sets: partition and filters\<close>

text \<open>
  Claim C8. For every fetched collection, the active working set (status other than
  completed) and the completed working set (status completed) partition it: their union
  is the collection, they share no report, and no occurrence of a report is lost or
  duplicated.
\<close>

theorem fetch_partition:
  "set (fetchReports (Inr data) old1) \<union> set (fetchCompletedReports (Inr data) old2) = set data
   \<and> set (fetchReports (Inr data) old1) \<inter> set (fetchCompletedReports (Inr data) old2) = {}
   \<and> mset (fetchReports (Inr data) old1) + mset (fetchCompletedReports (Inr data) old2)
       = mset data"
proof -
  have "set (fetchReports (Inr data) old1) \<union> set (fetchCompletedReports (Inr data) old2) = set data"
    by (auto simp: fetchReports_def fetchCompletedReports_def)
  moreover
  have "set (fetchReports (Inr data) old1) \<inter> set (fetchCompletedReports (Inr data) old2) = {}"
    by (auto simp: fetchReports_def fetchCompletedReports_def)
  moreover
  have "mset (fetchReports (Inr data) old1) + mset (fetchCompletedReports (Inr data) old2)
        = mset data"
    by (induction data) (simp_all add: fetchReports_def fetchCompletedReports_def)
  ultimately show ?thesis by blast
qed

lemma includes_sublist: "str_includes s t \<longleftrightarrow> sublist t s"
  by (induction s) (simp_all add: sublist_Cons_right)

lemma includes_iff: "str_includes s t \<longleftrightarrow> (\<exists>before after. s = before @ t @ after)"
  by (simp add: includes_sublist sublist_def)

text \<open>
  What \<open>filterReports\<close> does on every input. With an employee criterion it raises a
  \<open>TypeError\<close> as soon as one report that passed the client criterion has no employee
  name; otherwise it keeps, in the input's order, the reports that meet the criteria
  given.
\<close>

lemma filter_employee_total:
  "filter_employee toLowerCase searchEmployee reports
   = (if \<exists>report \<in> set reports. employee_name report = None then Inl TypeError
      else Inr (filter (employee_matches toLowerCase searchEmployee) reports))"
proof (induction reports)
  case Nil
  show ?case by simp
next
  case (Cons r rest)
  show ?case
  proof (cases "employee_name r")
    case None
    then show ?thesis by simp
  next
    case (Some name)
    then have m: "employee_matches toLowerCase searchEmployee r
                  = str_includes (toLowerCase name) (toLowerCase searchEmployee)"
      by (simp add: employee_matches_def)
    show ?thesis using Some by (simp add: Cons.IH m)
  qed
qed

lemma filterReports_concluded_total:
  "filterReports_concluded toLowerCase reports searchClient searchEmployee
   = (if searchEmployee \<noteq> [] \<and>
         (\<exists>report \<in> set reports.
            (searchClient = [] \<or> client_matches searchClient report) \<and>
            employee_name report = None)
      then Inl TypeError
      else Inr (filter (\<lambda>report.
                  (searchClient = [] \<or> client_matches searchClient report) \<and>
                  (searchEmployee = [] \<or> employee_matches toLowerCase searchEmployee report))
                reports))"
  by (auto simp: filterReports_concluded_def filter_employee_total client_matches_def
        intro: filter_cong)

lemma filterReports_concluded_order:
  "filterReports_concluded toLowerCase reports searchClient searchEmployee = Inr kept
   \<Longrightarrow> subseq kept reports"
  by (auto simp: filterReports_concluded_total split: if_splits)

text \<open>
  The employee criterion is the substring test on the two lower-cased strings, and the
  client criterion is string equality.
\<close>

lemma employee_matches_iff:
  "employee_matches toLowerCase searchEmployee report
   \<longleftrightarrow> (\<exists>name before after. employee_name report = Some name
         \<and> toLowerCase name = before @ toLowerCase searchEmployee @ after)"
  by (auto simp: employee_matches_def includes_iff split: option.splits)

lemma toLowerCase_samples:
  "latin1_toLowerCase ''John'' = ''john''"
  "latin1_toLowerCase ''jo'' = ''jo''"
  "latin1_toLowerCase ''JO'' = ''jo''"
  "latin1_toLowerCase ''hn'' = ''hn''"
  "latin1_toLowerCase ''jn'' = ''jn''"
  "latin1_toLowerCase ''Johnny'' = ''johnny''"
  "latin1_toLowerCase [CHR ''J'', CHR ''O'', CHR ''S'', CHR 0xC9]
     = [CHR ''j'', CHR ''o'', CHR ''s'', CHR 0xE9]"
  "latin1_toLowerCase [CHR ''s'', CHR 0xE9] = [CHR ''s'', CHR 0xE9]"
  "latin1_toLowerCase [CHR 0xD7, CHR 0xDF, CHR ''1'', CHR '' '']
     = [CHR 0xD7, CHR 0xDF, CHR ''1'', CHR '' '']"
  by code_simp+

lemma employee_matches_samples:
  "employee_matches latin1_toLowerCase ''jo'' (sample_report\<lparr>employee_name := Some ''John''\<rparr>)"
  "employee_matches latin1_toLowerCase ''JO'' (sample_report\<lparr>employee_name := Some ''John''\<rparr>)"
  "employee_matches latin1_toLowerCase ''hn'' (sample_report\<lparr>employee_name := Some ''John''\<rparr>)"
  "\<not> employee_matches latin1_toLowerCase ''jn'' (sample_report\<lparr>employee_name := Some ''John''\<rparr>)"
  "\<not> employee_matches latin1_toLowerCase ''Johnny''
       (sample_report\<lparr>employee_name := Some ''John''\<rparr>)"
  "\<not> employee_matches latin1_toLowerCase ''jo'' (sample_report\<lparr>employee_name := None\<rparr>)"
  "employee_matches latin1_toLowerCase [CHR ''s'', CHR 0xE9]
     (sample_report\<lparr>employee_name := Some [CHR ''J'', CHR ''O'', CHR ''S'', CHR 0xC9]\<rparr>)"
  "\<not> client_matches ''Smith Pool'' (sample_report\<lparr>client_name := ''Smith Pools''\<rparr>)"
  "client_matches ''Smith Pool'' (sample_report\<lparr>client_name := ''Smith Pool''\<rparr>)"
  by (simp_all add: employee_matches_def client_matches_def toLowerCase_samples)

lemma filterReports_concluded_sample:
  "filterReports_concluded latin1_toLowerCase
     [sample_report, sample_report\<lparr>client_name := ''Smith Pools''\<rparr>,
      sample_report\<lparr>employee_name := Some ''Ann''\<rparr>] ''Smith Pool'' ''JO''
   = Inr [sample_report]"
  by code_simp

text \<open>
  Claim C9. \<open>filterReports\<close> on the completed set should keep exactly the reports whose
  employee name contains the criterion, whatever the case of the letters, and so keep
  none for a report without an employee name. The source calls \<open>toLowerCase\<close> on
  \<open>report.employee_name\<close> with no guard: with an employee criterion, one report without
  an employee name raises a \<open>TypeError\<close> whatever the host's case mapping is, and the
  reports that match are lost with it. The PDF reads the same field with the fallback
  \<open>report.employee_name || 'N/A'\<close>, and with no employee criterion the filter returns
  the report.
\<close>

theorem filterReports_concluded_TypeError:
  "filterReports_concluded toLowerCase [sample_report\<lparr>employee_name := None\<rparr>] [] ''jo''
     = Inl TypeError
   \<and> filterReports_concluded toLowerCase
       [sample_report, sample_report\<lparr>employee_name := None\<rparr>] ''Smith Pool'' ''jo''
     = Inl TypeError
   \<and> filterReports_concluded toLowerCase [sample_report\<lparr>employee_name := None\<rparr>] [] []
     = Inr [sample_report\<lparr>employee_name := None\<rparr>]
   \<and> employee_label (sample_report\<lparr>employee_name := None\<rparr>) = ''N/A''"
  by (simp add: filterReports_concluded_def employee_label_def sample_report_def)

section \<open>Gross profit: what holds and what does not\<close>

subsection \<open>The decimal text of a number\<close>

lemma pow10_power_int: "pow10 e = power_int 10 e"
  by (simp add: pow10_def power_int_def power_inverse [symmetric] inverse_eq_divide
        power_one_over)

lemma pow10_pos: "0 < pow10 e"
  by (simp add: pow10_def)

lemma pow10_mono: "d \<le> e \<Longrightarrow> pow10 d \<le> pow10 e"
  by (simp add: pow10_power_int power_int_increasing)

lemma pow10_nat: "pow10 (int n) = 10 ^ n"
  by (simp add: pow10_def)

lemma pow10_neg_nat: "pow10 (- int n) = 1 / 10 ^ n"
  by (cases "n = 0") (simp_all add: pow10_def)

lemma dec_exponent_bounds:
  assumes "0 < a"
  shows "pow10 (dec_exponent a - 1) \<le> a" and "a < pow10 (dec_exponent a)"
proof -
  have "pow10 (dec_exponent a - 1) \<le> a \<and> a < pow10 (dec_exponent a)"
  proof (cases "1 \<le> a")
    case True
    let ?L = "floorlog 10 (nat \<lfloor>a\<rfloor>)"
    have L: "1 \<le> ?L" "of_nat 10 ^ (?L - 1) \<le> a" "a < of_nat 10 ^ ?L"
      using floorlog_floor_bounds [of 10 a] True by simp_all
    have e: "dec_exponent a = int ?L" using True by (simp add: dec_exponent_def)
    have "int (?L - 1) = int ?L - 1" using L(1) by linarith
    then have "dec_exponent a - 1 = int (?L - 1)" by (simp add: e)
    then have "pow10 (dec_exponent a - 1) = 10 ^ (?L - 1)"
      by (simp only: pow10_nat)
    moreover have "pow10 (dec_exponent a) = 10 ^ ?L"
      by (simp only: e pow10_nat)
    ultimately show ?thesis using L(2,3) by simp
  next
    case False
    let ?L = "floorlog 10 (nat (\<lceil>1 / a\<rceil> - 1))"
    have L: "1 \<le> ?L" "1 / of_nat 10 ^ ?L \<le> a" "a < 1 / of_nat 10 ^ (?L - 1)"
      using floorlog_ceiling_bounds [of 10 a] False assms by simp_all
    have e: "dec_exponent a = 1 - int ?L" using False by (simp add: dec_exponent_def)
    have "dec_exponent a - 1 = - int ?L" by (simp add: e)
    then have "pow10 (dec_exponent a - 1) = 1 / 10 ^ ?L"
      by (simp only: pow10_neg_nat)
    moreover have "int (?L - 1) = int ?L - 1" using L(1) by linarith
    then have "dec_exponent a = - int (?L - 1)" by (simp add: e)
    then have "pow10 (dec_exponent a) = 1 / 10 ^ (?L - 1)"
      by (simp only: pow10_neg_nat)
    ultimately show ?thesis using L(2,3) by simp
  qed
  then show "pow10 (dec_exponent a - 1) \<le> a" and "a < pow10 (dec_exponent a)" by simp_all
qed

lemma dec_exponent_unique:
  assumes "pow10 (n - 1) \<le> a" and "a < pow10 n"
  shows "dec_exponent a = n"
proof -
  have a: "0 < a" using assms(1) pow10_pos [of "n - 1"] by simp
  have b: "pow10 (dec_exponent a - 1) \<le> a" "a < pow10 (dec_exponent a)"
    using dec_exponent_bounds [OF a] by simp_all
  have "\<not> dec_exponent a < n"
  proof
    assume "dec_exponent a < n"
    then have "pow10 (dec_exponent a) \<le> pow10 (n - 1)" by (intro pow10_mono) simp
    then show False using assms(1) b(2) by simp
  qed
  moreover have "\<not> n < dec_exponent a"
  proof
    assume "n < dec_exponent a"
    then have "pow10 n \<le> pow10 (dec_exponent a - 1)" by (intro pow10_mono) simp
    then show False using assms(2) b(1) by simp
  qed
  ultimately show ?thesis by simp
qed

text \<open>The text reads back as the number.\<close>

lemma shortest_from_roundtrip:
  assumes "fl a = a"
  shows "fl (shortest_from fuel k a) = a"
  using assms by (induction fuel arbitrary: k) (simp_all add: Let_def)

lemma shortest_decimal_roundtrip:
  assumes "fl x = x"
  shows "fl (shortest_decimal x) = x"
proof -
  consider "x = 0" | "0 < x" | "x < 0" by linarith
  then show ?thesis
  proof cases
    case 1
    then show ?thesis by (simp add: shortest_decimal_def fl_def)
  next
    case 2
    then show ?thesis
      using shortest_from_roundtrip [OF assms, of 17 1] by (simp add: shortest_decimal_def)
  next
    case 3
    have "fl (- x) = - x" using assms by (simp add: fl_minus)
    then have "fl (shortest_from 17 1 (- x)) = - x" by (rule shortest_from_roundtrip)
    then show ?thesis using 3 by (simp add: shortest_decimal_def fl_minus)
  qed
qed

lemma shortest_from_next:
  assumes "fl (decimal_below k a) \<noteq> a" and "fl (decimal_above k a) \<noteq> a"
  shows "shortest_from (Suc fuel) k a = shortest_from fuel (Suc k) a"
  using assms by (simp add: Let_def)

lemma shortest_from_above:
  assumes "fl (decimal_below k a) \<noteq> a" and "fl (decimal_above k a) = a"
  shows "shortest_from (Suc fuel) k a = decimal_above k a"
  using assms by (simp add: Let_def)

lemma shortest_from_below:
  assumes "fl (decimal_below k a) = a" and "fl (decimal_above k a) \<noteq> a"
  shows "shortest_from (Suc fuel) k a = decimal_below k a"
  using assms by (simp add: Let_def)

subsection \<open>Rounding to two fraction digits\<close>

lemma halfExpand2_near: "\<bar>halfExpand2 x - x\<bar> \<le> 1 / 200"
proof -
  let ?m = "\<lfloor>\<bar>x\<bar> * 100 + 1 / 2\<rfloor>"
  have "of_int ?m \<le> \<bar>x\<bar> * 100 + 1 / 2" and "\<bar>x\<bar> * 100 + 1 / 2 < of_int ?m + 1"
    by linarith+
  then have near: "\<bar>of_int ?m / 100 - \<bar>x\<bar>\<bar> \<le> 1 / 200"
    by linarith
  have "halfExpand2 x - x = sgn x * (of_int ?m / 100 - \<bar>x\<bar>)"
    using sgn_mult_abs [of x] by (simp add: halfExpand2_def algebra_simps)
  then have "\<bar>halfExpand2 x - x\<bar> = \<bar>sgn x\<bar> * \<bar>of_int ?m / 100 - \<bar>x\<bar>\<bar>"
    by (simp add: abs_mult)
  also have "\<dots> \<le> 1 * \<bar>of_int ?m / 100 - \<bar>x\<bar>\<bar>"
    by (rule mult_right_mono) (simp_all add: abs_sgn_eq)
  finally show ?thesis
    using near by simp
qed

lemma halfExpand2_cents: "\<exists>c::int. halfExpand2 x = of_int c / 100"
proof -
  let ?m = "\<lfloor>\<bar>x\<bar> * 100 + 1 / 2\<rfloor>"
  consider "x < 0" | "x = 0" | "0 < x" by linarith
  then show ?thesis
  proof cases
    case 1
    then have "halfExpand2 x = of_int (- ?m) / 100" by (simp add: halfExpand2_def)
    then show ?thesis by blast
  next
    case 2
    then have "halfExpand2 x = of_int 0 / 100" by (simp add: halfExpand2_def)
    then show ?thesis by blast
  next
    case 3
    then have "halfExpand2 x = of_int ?m / 100" by (simp add: halfExpand2_def)
    then show ?thesis by blast
  qed
qed

lemma halfExpand2_eval:
  assumes "0 < x" and "of_int c \<le> x * 100 + 1 / 2" and "x * 100 + 1 / 2 < of_int c + 1"
  shows "halfExpand2 x = of_int c / 100"
proof -
  have "\<lfloor>\<bar>x\<bar> * 100 + 1 / 2\<rfloor> = c"
    using assms by (intro floor_unique) simp_all
  then show ?thesis
    using assms(1) by (simp add: halfExpand2_def)
qed

subsection \<open>The display of some numbers\<close>

lemma fl_near:
  assumes "pow2 e \<le> y" and "y < pow2 (e + 1)" and "- 1022 \<le> e"
    and "\<bar>y / pow2 (e - 52) - of_int n\<bar> < 1 / 2"
  shows "fl y = of_int n * pow2 (e - 52)"
proof -
  have "0 < y" using assms(1) pow2_pos [of e] by simp
  moreover have "ilog2 y = e" using assms(1,2) by (rule ilog2_unique)
  moreover have "roundTiesToEven (y / pow2 (e - 52)) = n"
    using assms(4) by (rule roundTiesToEven_near)
  ultimately show ?thesis using assms(3) by (intro fl_eval)
qed

lemma fl_unit:
  assumes "1 \<le> y" and "y < 2" and "\<bar>y * 2 ^ 52 - of_int n\<bar> < 1 / 2"
  shows "fl y = of_int n / 2 ^ 52"
  using fl_near [of 0 y n] assms by (simp add: pow2_def)

lemma fl_samples_unit:
  "fl (1005 / 1000) = 4526117625507348 / 2 ^ 52"
  "fl (11 / 10) = 4953959590107546 / 2 ^ 52"
  "fl (101 / 100) = 4548635623644201 / 2 ^ 52"
  "fl (251 / 250) = 4521614025879978 / 2 ^ 52"
  "fl (201 / 200) = 4526117625507348 / 2 ^ 52"
  using fl_unit [of "1005 / 1000" 4526117625507348] fl_unit [of "11 / 10" 4953959590107546]
    fl_unit [of "101 / 100" 4548635623644201] fl_unit [of "251 / 250" 4521614025879978]
    fl_unit [of "201 / 200" 4526117625507348]
  by simp_all

lemma decimal_digits_eval:
  assumes "dec_exponent a = n"
    and "of_int d * pow10 (n - int k) \<le> a" and "a < of_int (d + 1) * pow10 (n - int k)"
  shows "decimal_digits k a = d"
    and "decimal_below k a = of_int d * pow10 (n - int k)"
    and "decimal_above k a = of_int (d + 1) * pow10 (n - int k)"
proof -
  let ?s = "pow10 (n - int k)"
  have s: "0 < ?s" by (rule pow10_pos)
  have "of_int d \<le> a / ?s" "a / ?s < of_int d + 1"
    using assms(2,3) s by (simp_all add: field_simps)
  then have "\<lfloor>a / ?s\<rfloor> = d" by (intro floor_unique)
  then show d: "decimal_digits k a = d" by (simp add: decimal_digits_def assms(1))
  show "decimal_below k a = of_int d * ?s" by (simp add: decimal_below_def d assms(1))
  show "decimal_above k a = of_int (d + 1) * ?s" by (simp add: decimal_above_def d assms(1))
qed

text \<open>
  The number \<open>1.005\<close> is below the decimal \<open>1.005\<close>; its text is \<open>1.005\<close> and it is shown
  as \<open>1.01\<close>.
\<close>

lemma shortest_decimal_1005: "shortest_decimal (fl (1005 / 1000)) = 201 / 200"
proof -
  let ?x = "4526117625507348 / 2 ^ 52 :: rat"
  have x: "fl (1005 / 1000) = ?x" by (rule fl_samples_unit)
  have n: "dec_exponent ?x = 1"
    by (rule dec_exponent_unique) (simp_all add: pow10_def)
  have k1: "decimal_below 1 ?x = 1" "decimal_above 1 ?x = 2"
    using decimal_digits_eval(2,3) [OF n, of 1 1] by (simp_all add: pow10_def)
  have k2: "decimal_below 2 ?x = 1" "decimal_above 2 ?x = 11 / 10"
    using decimal_digits_eval(2,3) [OF n, of 10 2] by (simp_all add: pow10_def)
  have k3: "decimal_below 3 ?x = 1" "decimal_above 3 ?x = 101 / 100"
    using decimal_digits_eval(2,3) [OF n, of 100 3] by (simp_all add: pow10_def)
  have k4: "decimal_below 4 ?x = 251 / 250" "decimal_above 4 ?x = 201 / 200"
    using decimal_digits_eval(2,3) [OF n, of 1004 4] by (simp_all add: pow10_def)
  have two: "fl 2 = 2" using fl_of_int [of 2] by simp
  have b1: "fl (decimal_below 1 ?x) \<noteq> ?x" unfolding k1 fl_one by simp
  have a1: "fl (decimal_above 1 ?x) \<noteq> ?x" unfolding k1 two by simp
  have b2: "fl (decimal_below 2 ?x) \<noteq> ?x" unfolding k2 fl_one by simp
  have a2: "fl (decimal_above 2 ?x) \<noteq> ?x" unfolding k2 fl_samples_unit by simp
  have b3: "fl (decimal_below 3 ?x) \<noteq> ?x" unfolding k3 fl_one by simp
  have a3: "fl (decimal_above 3 ?x) \<noteq> ?x" unfolding k3 fl_samples_unit by simp
  have b4: "fl (decimal_below 4 ?x) \<noteq> ?x" unfolding k4 fl_samples_unit by simp
  have a4: "fl (decimal_above 4 ?x) = ?x" unfolding k4 fl_samples_unit by simp
  have "shortest_from 17 1 ?x = shortest_from 16 2 ?x"
    using shortest_from_next [OF b1 a1, of 16] by (simp add: numeral_2_eq_2)
  also have "\<dots> = shortest_from 15 3 ?x"
    using shortest_from_next [OF b2 a2, of 15] by simp
  also have "\<dots> = shortest_from 14 4 ?x"
    using shortest_from_next [OF b3 a3, of 14] by simp
  also have "\<dots> = decimal_above 4 ?x"
    using shortest_from_above [OF b4 a4, of 13] by simp
  finally have "shortest_from 17 1 ?x = 201 / 200" unfolding k4 .
  then show ?thesis
    unfolding x by (simp add: shortest_decimal_def)
qed

lemma formatCurrency_1005: "formatCurrency (Some (fl (1005 / 1000))) = 101 / 100"
  unfolding formatCurrency_def or_zero_def option.case shortest_decimal_1005
  using halfExpand2_eval [of "201 / 200" 101] by simp

lemma formatCurrency_whole:
  "formatCurrency None = 0" "formatCurrency (Some 0) = 0" "formatCurrency (Some 1) = 1"
proof -
  show "formatCurrency None = 0" "formatCurrency (Some 0) = 0"
    by (simp_all add: formatCurrency_def or_zero_def shortest_decimal_def halfExpand2_def)
  have n: "dec_exponent 1 = 1"
    by (rule dec_exponent_unique) (simp_all add: pow10_def)
  have k1: "decimal_below 1 1 = 1" "decimal_above 1 1 = 2"
    using decimal_digits_eval(2,3) [OF n, of 1 1] by (simp_all add: pow10_def)
  have two: "fl 2 = 2" using fl_of_int [of 2] by simp
  have b1: "fl (decimal_below 1 1) = 1" unfolding k1 fl_one by simp
  have a1: "fl (decimal_above 1 1) \<noteq> 1" unfolding k1 two by simp
  have "shortest_from 17 1 1 = decimal_below 1 1"
    using shortest_from_below [OF b1 a1, of 16] by simp
  then have "shortest_decimal 1 = 1" unfolding k1 by (simp add: shortest_decimal_def)
  then show "formatCurrency (Some 1) = 1"
    using halfExpand2_eval [of 1 100] by (simp add: formatCurrency_def or_zero_def)
qed
subsection \<open>The display of whole cents\<close>

lemma halfExpand2_near_int:
  assumes "\<bar>s * 100 - of_int c\<bar> < 1 / 2"
  shows "halfExpand2 s = of_int c / 100"
proof -
  have b: "s * 100 - of_int c < 1 / 2" "- (s * 100 - of_int c) < 1 / 2"
    using assms unfolding abs_less_iff by blast+
  consider "0 < s" | "s < 0" | "s = 0" by linarith
  then show ?thesis
  proof cases
    case 1
    then have a: "\<bar>s\<bar> = s" by simp
    have "of_int c \<le> s * 100 + 1 / 2" "s * 100 + 1 / 2 < of_int c + 1"
      using b by linarith+
    then have "\<lfloor>\<bar>s\<bar> * 100 + 1 / 2\<rfloor> = c"
      unfolding a by (intro floor_unique)
    then show ?thesis using 1 by (simp add: halfExpand2_def)
  next
    case 2
    then have a: "\<bar>s\<bar> = - s" by simp
    have "of_int (- c) \<le> - s * 100 + 1 / 2" "- s * 100 + 1 / 2 < of_int (- c) + 1"
      unfolding of_int_minus using b by linarith+
    then have "\<lfloor>\<bar>s\<bar> * 100 + 1 / 2\<rfloor> = - c"
      unfolding a by (intro floor_unique)
    then show ?thesis using 2 by (simp add: halfExpand2_def)
  next
    case 3
    then have "\<bar>(of_int c :: rat)\<bar> < 1 / 2" using assms by simp
    then have "\<bar>(of_int c :: rat)\<bar> < of_int 1" by simp
    then have "\<bar>c\<bar> < 1" by (simp only: of_int_abs [symmetric] of_int_less_iff)
    then show ?thesis using 3 by (simp add: halfExpand2_def)
  qed
qed

text \<open>
  A number within \<open>2 ^ - 12\<close> of a whole number of cents, up to two million millions, is
  shown as that number of cents.
\<close>

lemma formatCurrency_near_cents:
  assumes "fl x = x" and "\<bar>x - of_int c / 100\<bar> \<le> 1 / 4096" and "\<bar>c\<bar> \<le> 2 * 10 ^ 14"
  shows "formatCurrency (Some x) = of_int c / 100"
proof -
  define y :: rat where "y = of_int c / 100"
  define s where "s = shortest_decimal x"
  have "\<bar>(of_int c :: rat)\<bar> \<le> of_int (2 * 10 ^ 14)"
    using assms(3) by (simp only: of_int_abs [symmetric] of_int_le_iff)
  then have y: "\<bar>y\<bar> \<le> 2000000000000" by (simp add: y_def)
  have xy: "\<bar>x - y\<bar> \<le> 1 / 4096" using assms(2) by (simp add: y_def)
  have x: "\<bar>x\<bar> < 4398046511104" using xy y by linarith
  have reads: "fl s = x" unfolding s_def using assms(1) by (rule shortest_decimal_roundtrip)
  have "\<not> pow2 42 \<le> \<bar>s\<bar>"
  proof
    assume "pow2 42 \<le> \<bar>s\<bar>"
    then have "pow2 42 \<le> \<bar>fl s\<bar>" by (intro fl_lower) simp_all
    then show False using x by (simp add: reads pow2_def)
  qed
  then have "\<bar>s\<bar> < 2 ^ 42" by (simp add: pow2_def)
  then have "\<bar>fl s - s\<bar> \<le> pow2 (int 42 - 54)" by (rule fl_error_below)
  then have sx: "\<bar>x - s\<bar> \<le> 1 / 4096" by (simp add: reads pow2_def)
  have c: "of_int c = y * 100" by (simp add: y_def)
  have "\<bar>s * 100 - of_int c\<bar> < 1 / 2"
    unfolding c using sx xy by linarith
  then have "halfExpand2 s = of_int c / 100"
    by (rule halfExpand2_near_int)
  then show ?thesis by (simp add: formatCurrency_def or_zero_def s_def)
qed

lemma fl_cents:
  assumes "\<bar>c\<bar> \<le> 10 ^ 14"
  shows "\<bar>fl (of_int c / 100) - of_int c / 100\<bar> \<le> 1 / 16384"
    and "\<bar>fl (of_int c / 100)\<bar> \<le> 1000000000001"
proof -
  define y :: rat where "y = of_int c / 100"
  have "\<bar>(of_int c :: rat)\<bar> \<le> of_int (10 ^ 14)"
    using assms by (simp only: of_int_abs [symmetric] of_int_le_iff)
  then have y: "\<bar>y\<bar> \<le> 1000000000000" by (simp add: y_def)
  then have "\<bar>y\<bar> < 2 ^ 40" by simp
  then have "\<bar>fl y - y\<bar> \<le> pow2 (int 40 - 54)" by (rule fl_error_below)
  then have e: "\<bar>fl y - y\<bar> \<le> 1 / 16384" by (simp add: pow2_def)
  then show "\<bar>fl (of_int c / 100) - of_int c / 100\<bar> \<le> 1 / 16384"
    by (simp add: y_def)
  have "\<bar>fl y\<bar> \<le> 1000000000001" using e y by linarith
  then show "\<bar>fl (of_int c / 100)\<bar> \<le> 1000000000001" by (simp add: y_def)
qed

text \<open>An amount of whole cents, up to a million millions, is shown as it is.\<close>

lemma formatCurrency_cents:
  assumes "\<bar>c\<bar> \<le> 10 ^ 14"
  shows "formatCurrency (Some (fl (of_int c / 100))) = of_int c / 100"
proof -
  have "\<bar>fl (of_int c / 100) - of_int c / 100\<bar> \<le> 1 / 4096"
    using fl_cents(1) [OF assms] by linarith
  moreover have "\<bar>c\<bar> \<le> 2 * 10 ^ 14" using assms by simp
  ultimately show ?thesis
    using fl_idem by (intro formatCurrency_near_cents)
qed

text \<open>
  For a total and a parts cost of whole cents, the displayed profit is their exact
  difference.
\<close>

lemma formatCurrency_profit_cents:
  assumes "\<bar>a\<bar> \<le> 10 ^ 14" and "\<bar>b\<bar> \<le> 10 ^ 14"
  shows "formatCurrency (Some (computeGrossProfit (Some (fl (of_int a / 100)))
                                                  (Some (fl (of_int b / 100)))))
         = of_int (a - b) / 100"
proof -
  define u where "u = fl (of_int a / 100) - fl (of_int b / 100)"
  define y :: rat where "y = of_int (a - b) / 100"
  have p: "computeGrossProfit (Some (fl (of_int a / 100))) (Some (fl (of_int b / 100))) = fl u"
    by (simp add: computeGrossProfit_def js_sub_def or_zero_def u_def)
  have y: "y = of_int a / 100 - of_int b / 100"
    by (simp add: y_def diff_divide_distrib)
  have uy: "\<bar>u - y\<bar> \<le> 1 / 8192"
    unfolding u_def y using fl_cents(1) [OF assms(1)] fl_cents(1) [OF assms(2)] by linarith
  have "\<bar>u\<bar> \<le> 2000000000002"
    unfolding u_def using fl_cents(2) [OF assms(1)] fl_cents(2) [OF assms(2)] by linarith
  then have "\<bar>u\<bar> < 2 ^ 41" by simp
  then have "\<bar>fl u - u\<bar> \<le> pow2 (int 41 - 54)" by (rule fl_error_below)
  then have "\<bar>fl u - u\<bar> \<le> 1 / 8192" by (simp add: pow2_def)
  then have "\<bar>fl u - y\<bar> \<le> 1 / 4096" using uy by linarith
  then have "\<bar>fl u - of_int (a - b) / 100\<bar> \<le> 1 / 4096" by (simp only: y_def)
  moreover have "\<bar>a - b\<bar> \<le> 2 * 10 ^ 14" using assms by simp
  ultimately have "formatCurrency (Some (fl u)) = of_int (a - b) / 100"
    using fl_idem by (intro formatCurrency_near_cents)
  then show ?thesis by (simp only: p)
qed
subsection \<open>The text of a number typed with three decimals\<close>

lemma pow10_add: "pow10 (d + e) = pow10 d * pow10 e"
  by (simp add: pow10_power_int power_int_add)

lemma pow10_less_cancel:
  assumes "pow10 d \<le> x" and "x < pow10 e"
  shows "d < e"
proof (rule ccontr)
  assume "\<not> d < e"
  then have "pow10 e \<le> pow10 d" by (intro pow10_mono) simp
  then show False using assms by simp
qed

text \<open>
  Where a decimal of \<open>K\<close> digits reads back as \<open>a\<close>, the text of \<open>a\<close> has at most \<open>K\<close>
  digits.
\<close>

lemma shortest_from_stops:
  assumes "k \<le> K" and "K < k + fuel"
    and "fl (decimal_below K a) = a \<or> fl (decimal_above K a) = a"
  shows "\<exists>j d. k \<le> j \<and> j \<le> K
               \<and> shortest_from fuel k a = of_int d * pow10 (dec_exponent a - int j)"
  using assms(1,2)
proof (induction fuel arbitrary: k)
  case 0
  then show ?case by simp
next
  case (Suc fuel)
  show ?case
  proof (cases "fl (decimal_below k a) = a \<or> fl (decimal_above k a) = a")
    case True
    then have "shortest_from (Suc fuel) k a = decimal_below k a
               \<or> shortest_from (Suc fuel) k a = decimal_above k a"
      by (auto simp: Let_def)
    then have "\<exists>d. shortest_from (Suc fuel) k a = of_int d * pow10 (dec_exponent a - int k)"
      unfolding decimal_below_def decimal_above_def by blast
    then show ?thesis using Suc.prems(1) by blast
  next
    case False
    then have "k \<noteq> K" using assms(3) by blast
    then have k: "Suc k \<le> K" "K < Suc k + fuel" using Suc.prems by simp_all
    have "shortest_from (Suc fuel) k a = shortest_from fuel (Suc k) a"
      using False by (intro shortest_from_next) simp_all
    moreover obtain j d where "Suc k \<le> j" "j \<le> K"
      "shortest_from fuel (Suc k) a = of_int d * pow10 (dec_exponent a - int j)"
      using Suc.IH [OF k] by blast
    ultimately show ?thesis by (intro exI [of _ j] exI [of _ d]) simp
  qed
qed

lemma shortest_decimal_mills_pos:
  assumes "10 \<le> m" and "m \<le> 10 ^ 15"
  shows "shortest_decimal (fl (of_int m / 1000)) = of_int m / 1000"
proof -
  define y :: rat where "y = of_int m / 1000"
  define a where "a = fl y"
  define n where "n = dec_exponent a"
  define K where "K = nat (n + 3)"
  have "(of_int 10 :: rat) \<le> of_int m" "(of_int m :: rat) \<le> of_int (10 ^ 15)"
    using assms by (simp_all only: of_int_le_iff)
  then have y: "1 / 100 \<le> y" "y \<le> 1000000000000" by (simp_all add: y_def)
  then have "\<bar>y\<bar> < 2 ^ 40" by simp
  then have "\<bar>fl y - y\<bar> \<le> pow2 (int 40 - 54)" by (rule fl_error_below)
  then have ay: "\<bar>a - y\<bar> \<le> 1 / 16384" by (simp add: pow2_def a_def)
  have a: "1 / 1000 \<le> a" "a < 1000000000001" using ay y by linarith+
  then have pos: "0 < a" by simp
  have idem: "fl a = a" unfolding a_def by (rule fl_idem)
  have nb: "pow10 (n - 1) \<le> a" "a < pow10 n"
    unfolding n_def using dec_exponent_bounds [OF pos] by simp_all
  have "pow10 (- 3) \<le> a" using a(1) by (simp add: pow10_def)
  then have "- 3 < n" using nb(2) by (rule pow10_less_cancel)
  moreover have a13: "a < pow10 13" using a(2) by (simp add: pow10_def)
  have "n - 1 < 13" by (rule pow10_less_cancel [OF nb(1) a13])
  ultimately have K: "1 \<le> K" "K \<le> 16" "n - int K = - 3" by (simp_all add: K_def)
  have scale: "pow10 (n - int K) = 1 / 1000" by (simp add: K pow10_def)
  have my: "of_int m = y * 1000" by (simp add: y_def)
  have valid: "fl (decimal_below K a) = a \<or> fl (decimal_above K a) = a"
  proof (cases "y \<le> a")
    case True
    have "of_int m * pow10 (n - int K) \<le> a" "a < of_int (m + 1) * pow10 (n - int K)"
      unfolding scale of_int_add my using True ay by simp_all
    then have "decimal_below K a = of_int m * pow10 (n - int K)"
      using n_def [symmetric] by (intro decimal_digits_eval(2))
    then have "decimal_below K a = y" by (simp add: scale y_def)
    then show ?thesis by (simp add: a_def idem [unfolded a_def])
  next
    case False
    have "of_int (m - 1) * pow10 (n - int K) \<le> a"
      "a < of_int (m - 1 + 1) * pow10 (n - int K)"
      unfolding scale of_int_add of_int_diff my using False ay by simp_all
    then have "decimal_above K a = of_int (m - 1 + 1) * pow10 (n - int K)"
      using n_def [symmetric] by (intro decimal_digits_eval(3))
    then have "decimal_above K a = y" by (simp add: scale y_def)
    then show ?thesis by (simp add: a_def idem [unfolded a_def])
  qed
  have "K < 1 + 17" using K(2) by simp
  then obtain j d where j: "1 \<le> j" "j \<le> K"
    and s: "shortest_from 17 1 a = of_int d * pow10 (dec_exponent a - int j)"
    using shortest_from_stops [OF K(1) _ valid] by blast
  define s where "s = shortest_from 17 1 a"
  have "n - int j = (n - int K) + int (K - j)" using j(2) by simp
  then have "pow10 (n - int j) = pow10 (n - int K) * 10 ^ (K - j)"
    by (simp only: pow10_add pow10_nat)
  then have grid: "s * 1000 = of_int (d * 10 ^ (K - j))"
    unfolding s_def s n_def [symmetric] scale by simp
  have reads: "fl s = a" unfolding s_def using idem by (rule shortest_from_roundtrip)
  have "\<not> pow2 41 \<le> \<bar>s\<bar>"
  proof
    assume "pow2 41 \<le> \<bar>s\<bar>"
    then have "pow2 41 \<le> \<bar>fl s\<bar>" by (intro fl_lower) simp_all
    then show False using a pos by (simp add: reads pow2_def)
  qed
  then have "\<bar>s\<bar> < 2 ^ 41" by (simp add: pow2_def)
  then have "\<bar>fl s - s\<bar> \<le> pow2 (int 41 - 54)" by (rule fl_error_below)
  then have sa: "\<bar>a - s\<bar> \<le> 1 / 8192" by (simp add: reads pow2_def)
  have "\<bar>s * 1000 - y * 1000\<bar> < 1"
    using sa ay by linarith
  then have "\<bar>(of_int (d * 10 ^ (K - j) - m) :: rat)\<bar> < of_int 1"
    unfolding grid my [symmetric] by simp
  then have "\<bar>d * 10 ^ (K - j) - m\<bar> < 1"
    by (simp only: of_int_abs [symmetric] of_int_less_iff)
  then have "d * 10 ^ (K - j) = m" by simp
  then have "s * 1000 = of_int m" using grid by simp
  then have "s = y" by (simp add: y_def)
  then show ?thesis
    using pos by (simp add: shortest_decimal_def s_def a_def y_def)
qed

text \<open>
  A number typed with up to three decimals, from a cent to a million millions, has the
  text that was typed, and is shown as that decimal rounded half away from zero.
\<close>

lemma shortest_decimal_mills:
  assumes "10 \<le> \<bar>m\<bar>" and "\<bar>m\<bar> \<le> 10 ^ 15"
  shows "shortest_decimal (fl (of_int m / 1000)) = of_int m / 1000"
proof (cases "0 < m")
  case True
  then show ?thesis using assms by (intro shortest_decimal_mills_pos) simp_all
next
  case False
  then have "shortest_decimal (fl (of_int (- m) / 1000)) = of_int (- m) / 1000"
    using assms by (intro shortest_decimal_mills_pos) simp_all
  then have "shortest_decimal (- fl (of_int m / 1000)) = - (of_int m / 1000)"
    by (simp add: fl_minus [symmetric])
  then show ?thesis
    by (simp add: shortest_decimal_def sgn_minus split: if_splits)
qed

lemma formatCurrency_mills:
  assumes "10 \<le> \<bar>m\<bar>" and "\<bar>m\<bar> \<le> 10 ^ 15"
  shows "formatCurrency (Some (fl (of_int m / 1000))) = halfExpand2 (of_int m / 1000)"
  by (simp only: formatCurrency_def or_zero_def option.case shortest_decimal_mills [OF assms])

text \<open>
  Claim C7 as it is written asks that the profit stay the same when one amount
  is added to both operands. In binary64 it does not: \<open>(0.1 + 0.2) - (0 + 0.2)\<close> is
  not \<open>0.1 - 0\<close>, and with \<open>d = 2 ^ 53\<close> even the displayed value changes, from
  \<open>1.00\<close> to \<open>0.00\<close>.
\<close>

theorem computeGrossProfit_shift_counterexample:
  "computeGrossProfit (Some (js_add (fl (1 / 10)) (fl (2 / 10)))) (Some (js_add 0 (fl (2 / 10))))
     \<noteq> computeGrossProfit (Some (fl (1 / 10))) (Some 0)
   \<and> formatCurrency (Some (computeGrossProfit (Some (js_add 1 (2 ^ 53))) (Some (js_add 0 (2 ^ 53)))))
     \<noteq> formatCurrency (Some (computeGrossProfit (Some 1) (Some 0)))"
proof -
  have small: "computeGrossProfit (Some (js_add (fl (1 / 10)) (fl (2 / 10))))
                 (Some (js_add 0 (fl (2 / 10)))) = 7205759403792796 / 2 ^ 56"
    by (simp only: computeGrossProfit_def js_add_def js_sub_def or_zero_def option.case
          fl_tenth fl_two_tenths add_0 fl_sum fl_two_tenths_again fl_difference)
  have "computeGrossProfit (Some (fl (1 / 10))) (Some 0) = fl (fl (1 / 10))"
    by (simp add: computeGrossProfit_def js_sub_def or_zero_def)
  then have small': "computeGrossProfit (Some (fl (1 / 10))) (Some 0) = 7205759403792794 / 2 ^ 56"
    by (simp only: fl_tenth fl_tenth_again)
  have "computeGrossProfit (Some (js_add 1 (2 ^ 53))) (Some (js_add 0 (2 ^ 53))) = fl (fl (1 + 2 ^ 53) - fl (2 ^ 53))"
    by (simp add: computeGrossProfit_def js_add_def js_sub_def or_zero_def)
  then have big: "computeGrossProfit (Some (js_add 1 (2 ^ 53))) (Some (js_add 0 (2 ^ 53))) = 0"
    by (simp only: fl_big_plus_one fl_big) (simp add: fl_def)
  have one: "computeGrossProfit (Some 1) (Some 0) = 1"
    by (simp add: computeGrossProfit_def js_sub_def or_zero_def fl_one)
  have shown: "formatCurrency (Some 0) = 0" "formatCurrency (Some 1) = 1"
    by (rule formatCurrency_whole)+
  show ?thesis
    unfolding small small' big one shown by simp
qed

text \<open>
  Claim C7, amended. The gross profit is the binary64 difference of the total and the
  parts cost, an absent operand counting as 0; on whole amounts below \<open>2 ^ 53\<close> it is
  the exact difference. The displayed value is rounded to two decimal places: it is a
  whole number of hundredths within half a hundredth of the decimal text of the profit,
  and the text reads back as the profit. For a total and a parts cost of whole cents,
  up to a million millions, the displayed profit is their exact difference; an amount
  typed with three decimals is shown as that decimal rounded half away from zero, so
  \<open>1.005\<close> is shown as \<open>1.01\<close>. Adding one amount to both operands leaves the profit
  unchanged whenever the two sums are computed exactly, as they are for whole amounts
  below \<open>2 ^ 53\<close>.
\<close>

theorem computeGrossProfit_spec:
  "computeGrossProfit totalCost partsCost = fl (or_zero totalCost - or_zero partsCost)
   \<and> or_zero None = 0 \<and> or_zero (Some x) = x
   \<and> (\<bar>a - b\<bar> < 2 ^ 53 \<longrightarrow>
        computeGrossProfit (Some (of_int a)) (Some (of_int b)) = of_int (a - b))
   \<and> (\<exists>h::int. formatCurrency (Some (computeGrossProfit totalCost partsCost)) = of_int h / 100)
   \<and> \<bar>formatCurrency (Some (computeGrossProfit totalCost partsCost))
        - shortest_decimal (computeGrossProfit totalCost partsCost)\<bar> \<le> 1 / 200
   \<and> fl (shortest_decimal (computeGrossProfit totalCost partsCost))
       = computeGrossProfit totalCost partsCost
   \<and> (\<bar>a\<bar> \<le> 10 ^ 14 \<and> \<bar>b\<bar> \<le> 10 ^ 14 \<longrightarrow>
        formatCurrency (Some (computeGrossProfit (Some (fl (of_int a / 100)))
                                                 (Some (fl (of_int b / 100)))))
        = of_int (a - b) / 100)
   \<and> (10 \<le> \<bar>m\<bar> \<and> \<bar>m\<bar> \<le> 10 ^ 15 \<longrightarrow>
        formatCurrency (Some (computeGrossProfit (Some (fl (of_int m / 1000))) None))
        = halfExpand2 (of_int m / 1000))
   \<and> formatCurrency (Some (computeGrossProfit (Some (fl (1005 / 1000))) None)) = 101 / 100
   \<and> (js_add t d = t + d \<and> js_add p d = p + d \<longrightarrow>
        computeGrossProfit (Some (js_add t d)) (Some (js_add p d))
        = computeGrossProfit (Some t) (Some p))
   \<and> (\<bar>a + c\<bar> < 2 ^ 53 \<and> \<bar>b + c\<bar> < 2 ^ 53 \<longrightarrow>
        computeGrossProfit (Some (js_add (of_int a) (of_int c))) (Some (js_add (of_int b) (of_int c)))
        = computeGrossProfit (Some (of_int a)) (Some (of_int b)))"
proof -
  let ?profit = "computeGrossProfit totalCost partsCost"
  have diff: "?profit = fl (or_zero totalCost - or_zero partsCost)"
    "or_zero None = 0" "or_zero (Some x) = x"
    by (simp_all add: computeGrossProfit_def js_sub_def or_zero_def)
  have whole: "\<bar>a - b\<bar> < 2 ^ 53 \<longrightarrow>
        computeGrossProfit (Some (of_int a)) (Some (of_int b)) = of_int (a - b)"
    using fl_of_int [of "a - b"] by (simp add: computeGrossProfit_def js_sub_def or_zero_def)
  have cents: "\<exists>h::int. formatCurrency (Some ?profit) = of_int h / 100"
    using halfExpand2_cents by (simp add: formatCurrency_def or_zero_def)
  have near: "\<bar>formatCurrency (Some ?profit) - shortest_decimal ?profit\<bar> \<le> 1 / 200"
    using halfExpand2_near by (simp add: formatCurrency_def or_zero_def)
  have "fl ?profit = ?profit"
    by (simp add: computeGrossProfit_def js_sub_def fl_idem)
  then have reads: "fl (shortest_decimal ?profit) = ?profit"
    by (rule shortest_decimal_roundtrip)
  have exact: "\<bar>a\<bar> \<le> 10 ^ 14 \<and> \<bar>b\<bar> \<le> 10 ^ 14 \<longrightarrow>
        formatCurrency (Some (computeGrossProfit (Some (fl (of_int a / 100)))
                                                 (Some (fl (of_int b / 100)))))
        = of_int (a - b) / 100"
    using formatCurrency_profit_cents [of a b] by blast
  have alone: "computeGrossProfit (Some (fl v)) None = fl v" for v
    by (simp add: computeGrossProfit_def js_sub_def or_zero_def fl_idem)
  have mills: "10 \<le> \<bar>m\<bar> \<and> \<bar>m\<bar> \<le> 10 ^ 15 \<longrightarrow>
        formatCurrency (Some (computeGrossProfit (Some (fl (of_int m / 1000))) None))
        = halfExpand2 (of_int m / 1000)"
    unfolding alone using formatCurrency_mills [of m] by blast
  have pin: "formatCurrency (Some (computeGrossProfit (Some (fl (1005 / 1000))) None))
             = 101 / 100"
    unfolding alone by (rule formatCurrency_1005)
  have shift: "js_add t d = t + d \<and> js_add p d = p + d \<longrightarrow>
        computeGrossProfit (Some (js_add t d)) (Some (js_add p d))
        = computeGrossProfit (Some t) (Some p)"
    by (simp add: computeGrossProfit_def js_sub_def or_zero_def)
  have shift_whole: "\<bar>a + c\<bar> < 2 ^ 53 \<and> \<bar>b + c\<bar> < 2 ^ 53 \<longrightarrow>
        computeGrossProfit (Some (js_add (of_int a) (of_int c))) (Some (js_add (of_int b) (of_int c)))
        = computeGrossProfit (Some (of_int a)) (Some (of_int b))"
    using fl_of_int [of "a + c"] fl_of_int [of "b + c"]
    by (simp add: computeGrossProfit_def js_add_def js_sub_def or_zero_def)
  show ?thesis
    using diff whole cents near reads exact mills pin shift shift_whole by (intro conjI)
qed

text \<open>
  An instance of C7, amended: a total of 100 and a parts cost of 40, in whole units and
  in cents, shifted by 7; a total of \<open>2.675\<close> alone, shown as \<open>2.68\<close>; and an absent total.
\<close>

theorem computeGrossProfit_spec_witness:
  "computeGrossProfit (Some 100) (Some 40) = 60
   \<and> formatCurrency (Some (computeGrossProfit (Some (fl (100 / 100))) (Some (fl (40 / 100)))))
     = 60 / 100
   \<and> formatCurrency (Some (computeGrossProfit (Some (fl (2675 / 1000))) None)) = 268 / 100
   \<and> computeGrossProfit (Some (js_add 100 7)) (Some (js_add 40 7))
     = computeGrossProfit (Some 100) (Some 40)
   \<and> computeGrossProfit None (Some 40) = fl (0 - 40)"
proof -
  have sums: "js_add 100 7 = 100 + 7" "js_add 40 7 = 40 + 7"
    using fl_of_int [of 107] fl_of_int [of 47] by (simp_all add: js_add_def)
  have shown: "halfExpand2 (2675 / 1000) = 268 / 100"
    using halfExpand2_eval [of "2675 / 1000" 268] by simp
  note spec = computeGrossProfit_spec
    [where a = 100 and b = 40 and c = 7 and m = 2675 and t = 100 and p = 40 and d = 7
       and x = 0]
  have profit: "computeGrossProfit (Some 100) (Some 40) = 60"
    using spec [of "Some 100" "Some 40"] by simp
  have display: "formatCurrency (Some (computeGrossProfit (Some (fl (100 / 100)))
                                                         (Some (fl (40 / 100))))) = 60 / 100"
    using spec [of "Some 100" "Some 40"] by simp
  have mills: "formatCurrency (Some (computeGrossProfit (Some (fl (2675 / 1000))) None))
               = 268 / 100"
    using spec [of "Some 100" "Some 40"] shown by simp
  have rest: "computeGrossProfit (Some (js_add 100 7)) (Some (js_add 40 7))
     = computeGrossProfit (Some 100) (Some 40)
   \<and> computeGrossProfit None (Some 40) = fl (0 - 40)"
    using spec [of "Some 100" "Some 40"] spec [of None "Some 40"] sums
    by (simp add: or_zero_def)
  show ?thesis
    using profit display mills rest by (intro conjI) simp_all
qed

section \<open>Report download: filter, empty result, pagination\<close>

text \<open>
  Claim C3. The input filter of the PDF generation keeps exactly the reports with status
  completed whose effective date (the completion date, the request date when there is no
  completion date) parses to a time between the start and the end date inclusive, and,
  when a client or an employee is selected, whose client name or employee id equals the
  selection; every other report is left out and the order is kept.
\<close>

theorem select_reports_spec:
  "select_reports D startDate endDate selectedClient selectedEmployee allReports
   = filter (\<lambda>report. status report = ''completed''
                      \<and> in_range D startDate endDate report
                      \<and> (narrows selectedClient \<longrightarrow> client_name report = selectedClient)
                      \<and> (narrows selectedEmployee \<longrightarrow> employee_id report = selectedEmployee))
       allReports
   \<and> (\<forall>report. in_range D startDate endDate report
         = (\<exists>t start end'. D (effective_date report) = Some t \<and> D startDate = Some start
               \<and> D endDate = Some end' \<and> start \<le> t \<and> t \<le> end'))
   \<and> (\<forall>report c. completion_date report = Some c \<and> c \<noteq> [] \<longrightarrow> effective_date report = c)
   \<and> (\<forall>report. completion_date report = None \<longrightarrow> effective_date report = request_date report)"
proof -
  have sel: "select_reports D startDate endDate selectedClient selectedEmployee allReports
     = filter (\<lambda>report. status report = ''completed''
                      \<and> in_range D startDate endDate report
                      \<and> (narrows selectedClient \<longrightarrow> client_name report = selectedClient)
                      \<and> (narrows selectedEmployee \<longrightarrow> employee_id report = selectedEmployee))
       allReports"
    by (auto simp: select_reports_def Let_def intro: filter_cong)
  have rng: "\<forall>report. in_range D startDate endDate report
         = (\<exists>t start end'. D (effective_date report) = Some t \<and> D startDate = Some start
               \<and> D endDate = Some end' \<and> start \<le> t \<and> t \<le> end')"
    by (auto simp: in_range_def split: option.splits)
  have eff: "\<forall>report c. completion_date report = Some c \<and> c \<noteq> [] \<longrightarrow> effective_date report = c"
    by (simp add: effective_date_def)
  have fallback: "\<forall>report. completion_date report = None
                    \<longrightarrow> effective_date report = request_date report"
    by (simp add: effective_date_def)
  show ?thesis
    using sel rng eff fallback by blast
qed

lemma in_range_samples:
  "in_range sample_dates ''2024-03-09'' ''2024-03-10'' sample_report"
  "\<not> in_range sample_dates ''2024-03-09'' ''2024-03-10''
       (sample_report\<lparr>completion_date := Some ''2024-03-10T12:00:00Z''\<rparr>)"
  by (simp_all add: in_range_def effective_date_def sample_dates_def sample_report_def)

text \<open>
  An instance of C3: of four reports, the range from 2024-03-09 to 2024-03-10 with the
  employee \<open>e1\<close> selected keeps the completed one whose date lies in the range (a
  completion at noon of the end date lies after the end date, which parses to its
  midnight).
\<close>

theorem select_reports_spec_witness:
  "select_reports sample_dates ''2024-03-09'' ''2024-03-10'' ''all'' ''e1''
     [sample_report\<lparr>status := ''scheduled''\<rparr>,
      sample_report,
      sample_report\<lparr>completion_date := Some ''2024-03-10T12:00:00Z''\<rparr>,
      sample_report\<lparr>employee_id := ''e2''\<rparr>]
   = [sample_report]"
proof -
  have st: "status sample_report = ''completed''" "employee_id sample_report = ''e1''"
    by (simp_all add: sample_report_def)
  have n: "\<not> narrows ''all''" "narrows ''e1''"
    by (simp_all add: narrows_def)
  show ?thesis
    using select_reports_spec [of sample_dates "''2024-03-09''" "''2024-03-10''" "''all''" "''e1''"
        "[sample_report\<lparr>status := ''scheduled''\<rparr>,
          sample_report,
          sample_report\<lparr>completion_date := Some ''2024-03-10T12:00:00Z''\<rparr>,
          sample_report\<lparr>employee_id := ''e2''\<rparr>]"]
      in_range_samples st n
    by simp
qed

text \<open>
  Claim C4. When no report is left after the filter, the generation stops before
  \<open>generatePDF\<close> is called: no document is saved, the user gets one alert (the message
  for an empty result when both dates were selected), no exception arises inside the
  handler or leaves it, and \<open>isGenerating\<close> is false again.
\<close>

theorem generateReport_empty:
  assumes "select_reports D startDate endDate selectedClient selectedEmployee allReports = []"
  shows "saved (generateReport D lib startDate endDate selectedClient selectedEmployee
                  (Inr allReports)) = []
       \<and> length (alerts (generateReport D lib startDate endDate selectedClient selectedEmployee
                  (Inr allReports))) = 1
       \<and> \<not> isGenerating (generateReport D lib startDate endDate selectedClient selectedEmployee
                  (Inr allReports))
       \<and> generateReport_try D lib startDate endDate selectedClient selectedEmployee
            (Inr allReports)
          = Inr \<lparr>alerts = [''No completed reports found for the selected criteria''],
                 saved = [], isGenerating = False\<rparr>
       \<and> (startDate \<noteq> [] \<and> endDate \<noteq> [] \<longrightarrow>
            generateReport D lib startDate endDate selectedClient selectedEmployee
              (Inr allReports)
            = \<lparr>alerts = [''No completed reports found for the selected criteria''],
               saved = [], isGenerating = False\<rparr>)"
  using assms by (simp add: generateReport_def generateReport_try_def)

text \<open>An instance of C4: the only report fetched is not completed.\<close>

theorem generateReport_empty_witness:
  "generateReport sample_dates a4 ''2024-03-09'' ''2024-03-10'' [] []
     (Inr [sample_report\<lparr>status := ''scheduled''\<rparr>])
   = \<lparr>alerts = [''No completed reports found for the selected criteria''],
      saved = [], isGenerating = False\<rparr>"
proof -
  have none: "select_reports sample_dates ''2024-03-09'' ''2024-03-10'' [] []
                [sample_report\<lparr>status := ''scheduled''\<rparr>] = []"
    by (simp add: select_reports_def narrows_def)
  show ?thesis
    using generateReport_empty [OF none, of a4] by simp
qed

text \<open>A document is saved only when the filter leaves a report.\<close>

lemma generateReport_saved:
  assumes "saved (generateReport D lib startDate endDate selectedClient selectedEmployee
                    response) \<noteq> []"
  shows "\<exists>allReports. response = Inr allReports
           \<and> select_reports D startDate endDate selectedClient selectedEmployee allReports \<noteq> []"
  using assms
  by (auto simp: generateReport_def generateReport_try_def Let_def
           split: if_splits sum.splits)

subsection \<open>Pagination\<close>

lemma after_text_bounds: "y + 51 \<le> after_text lib report y \<and> after_text lib report y \<le> y + 69"
  by (simp add: after_text_def Let_def)

text \<open>The page break: exactly on a full counter or a cursor beyond \<open>pageHeight - 100\<close>.\<close>

lemma place_report_new_page:
  "finished (place_report lib i report st)
   = (if maxReportsPerPage \<le> reportsPerPage st \<or> pageHeight lib - 100 < yPosition st
      then finished st @ [page st] else finished st)"
  by (simp add: place_report_def needs_new_page_def addPage_def Let_def)

lemma place_report_page:
  "page (place_report lib i report st)
   = (if maxReportsPerPage \<le> reportsPerPage st \<or> pageHeight lib - 100 < yPosition st
      then [] else page st)
     @ [\<lparr>seq_no = i + 1, shown = report,
         box_top = (if maxReportsPerPage \<le> reportsPerPage st \<or> pageHeight lib - 100 < yPosition st
                    then 20 else yPosition st) - 5\<rparr>]"
  by (simp add: place_report_def needs_new_page_def addPage_def Let_def)

text \<open>Reports are placed in the order of the input, numbered from 1.\<close>

lemma place_report_placed:
  "map shown (placed (place_report lib i report st)) = map shown (placed st) @ [report]
   \<and> map seq_no (placed (place_report lib i report st)) = map seq_no (placed st) @ [i + 1]"
  by (simp add: placed_def place_report_new_page place_report_page)

lemma place_reports_placed:
  assumes "place_reports lib i reports st = Inr st'"
  shows "map shown (placed st') = map shown (placed st) @ reports
       \<and> map seq_no (placed st') = map seq_no (placed st) @ [i + 1 ..< i + 1 + length reports]"
  using assms
proof (induction reports arbitrary: i st)
  case Nil
  then show ?case by simp
next
  case (Cons report rest)
  from Cons.prems have run: "place_reports lib (i + 1) rest (place_report lib i report st) = Inr st'"
    by (simp split: if_splits)
  have "[i + 1 ..< i + 1 + length (report # rest)]
        = (i + 1) # [i + 1 + 1 ..< i + 1 + 1 + length rest]"
    by (simp add: upt_rec)
  then show ?case
    using Cons.IH [OF run] place_report_placed [of lib i report st] by simp
qed

lemma generatePDF_order:
  assumes "generatePDF lib reports startDate endDate = Inr doc"
  shows "map shown (concat (pages doc)) = reports
       \<and> map seq_no (concat (pages doc)) = [1 ..< 1 + length reports]"
proof -
  let ?init = "\<lparr>yPosition = 45, reportsPerPage = 0, finished = [], page = []\<rparr>"
  from assms obtain st where run: "place_reports lib 0 reports ?init = Inr st"
    and doc: "pages doc = finished st @ [page st]"
    by (auto simp: generatePDF_def split: sum.splits)
  have "concat (pages doc) = placed st"
    by (simp add: doc placed_def)
  then show ?thesis
    using place_reports_placed [OF run] by (simp add: placed_def)
qed

text \<open>On a page lower than 412 no page ever holds a third container.\<close>

lemma place_report_packed:
  assumes "pageHeight lib < 412" and "packed st"
  shows "packed (place_report lib i report st)"
proof (cases "maxReportsPerPage \<le> reportsPerPage st \<or> pageHeight lib - 100 < yPosition st")
  case True
  have "20 + 51 \<le> after_text lib report 20"
    using after_text_bounds [of 20 lib report] by simp
  then show ?thesis
    using True assms(2)
    by (simp add: packed_def place_report_def needs_new_page_def addPage_def Let_def
        containerHeight_def)
next
  case False
  then have y: "yPosition st < 312"
    using assms(1) by simp
  then have "146 * (of_nat (length (page st)) :: rat) < 292"
    using assms(2) by (simp add: packed_def)
  then have len: "length (page st) < 2"
    by simp
  have "yPosition st + 51 \<le> after_text lib report (yPosition st)"
    using after_text_bounds by simp
  then show ?thesis
    using False assms(2) len
    by (simp add: packed_def place_report_def needs_new_page_def Let_def containerHeight_def)
qed

lemma place_reports_packed:
  assumes "pageHeight lib < 412" and "packed st" and "place_reports lib i reports st = Inr st'"
  shows "packed st'"
  using assms(2,3)
proof (induction reports arbitrary: i st)
  case Nil
  then show ?case by simp
next
  case (Cons report rest)
  from Cons.prems(2)
  have run: "place_reports lib (i + 1) rest (place_report lib i report st) = Inr st'"
    by (simp split: if_splits)
  show ?case
    using Cons.IH [OF place_report_packed [OF assms(1) Cons.prems(1)] run] .
qed

lemma length_concat_le:
  assumes "\<forall>p \<in> set ps. length p \<le> k"
  shows "length (concat ps) \<le> k * length ps"
  using assms by (induction ps) auto

lemma generatePDF_two_per_page:
  assumes "pageHeight lib < 412" and "generatePDF lib reports startDate endDate = Inr doc"
  shows "(\<forall>p \<in> set (pages doc). length p \<le> 2) \<and> length reports \<le> 2 * length (pages doc)"
proof -
  let ?init = "\<lparr>yPosition = 45, reportsPerPage = 0, finished = [], page = []\<rparr>"
  from assms(2) obtain st where run: "place_reports lib 0 reports ?init = Inr st"
    and doc: "pages doc = finished st @ [page st]"
    by (auto simp: generatePDF_def split: sum.splits)
  have "packed ?init"
    by (simp add: packed_def)
  then have "packed st"
    using place_reports_packed [OF assms(1) _ run] by simp
  then have two: "\<forall>p \<in> set (pages doc). length p \<le> 2"
    by (auto simp: packed_def doc)
  have "length reports = length (concat (pages doc))"
    using generatePDF_order [OF assms(2)] by (metis length_map)
  then show ?thesis
    using two length_concat_le [OF two] by simp
qed

text \<open>
  Claim C1. Seven completed reports on an A4 page: the engine places the reports in the
  order of the input, which the claim states, but it produces four pages holding 2, 2, 2
  and 1 containers, where the claim and the comment at \<open>maxReportsPerPage\<close> (three
  reports per page) expect three pages holding 3, 3 and 1. The second container of a
  page leaves the cursor beyond \<open>pageHeight - 100\<close>, so the counter never reaches 3.
\<close>

theorem generatePDF_seven_reports:
  "map_sum id (\<lambda>doc. map (map (\<lambda>box. (seq_no box, client_name (shown box)))) (pages doc))
     (generatePDF a4 seven_reports ''2024-03-01'' ''2024-03-31'')
   = Inr [[(1, ''A''), (2, ''B'')], [(3, ''C''), (4, ''D'')], [(5, ''E''), (6, ''F'')],
          [(7, ''G'')]]"
  by code_simp

text \<open>The same for any seven reports: at least four pages, none with three containers.\<close>

lemma generatePDF_seven_needs_four_pages:
  assumes "pageHeight lib < 412" and "length reports = 7"
    and "generatePDF lib reports startDate endDate = Inr doc"
  shows "4 \<le> length (pages doc) \<and> map length (pages doc) \<noteq> [3, 3, 1]"
proof -
  have two: "\<forall>p \<in> set (pages doc). length p \<le> 2"
    and n: "length reports \<le> 2 * length (pages doc)"
    using generatePDF_two_per_page [OF assms(1,3)] by simp_all
  have "4 \<le> length (pages doc)"
    using n assms(2) by simp
  moreover have "map length (pages doc) \<noteq> [3, 3, 1]"
  proof
    assume "map length (pages doc) = [3, 3, 1]"
    then have "length (map length (pages doc)) = 3" by simp
    then show False using \<open>4 \<le> length (pages doc)\<close> by simp
  qed
  ultimately show ?thesis by simp
qed

section \<open>Debounced edits: one timer per handle\<close>

lemma read_handle_simps:
  "read_handle h (b\<lparr>now := n\<rparr>) = read_handle h b"
  "read_handle h (b\<lparr>timers := ts\<rparr>) = read_handle h b"
  "read_handle h (b\<lparr>sent := rs\<rparr>) = read_handle h b"
  "read_handle h (b\<lparr>notes_text := text\<rparr>) = read_handle h b"
  "read_handle h (b\<lparr>next_id := i\<rparr>) = read_handle h b"
  by (cases h; simp add: read_handle_def)+

lemma handle_of_request: "handle_of_field (put_field (request_of text cb)) = handle_of cb"
  by (cases cb) simp_all

lemma clearTimeout_handle:
  assumes "consistent b"
  shows "timers (clearTimeout (read_handle h b) b)
         = filter (\<lambda>t. handle_of (callback t) \<noteq> h) (timers b)"
proof (cases "read_handle h b")
  case None
  have "\<forall>t \<in> set (timers b). handle_of (callback t) \<noteq> h"
    using assms None by (auto simp: consistent_def)
  then have "filter (\<lambda>t. handle_of (callback t) \<noteq> h) (timers b) = timers b"
    by simp
  then show ?thesis
    using None by (simp add: clearTimeout_def)
next
  case (Some i)
  have "\<forall>t \<in> set (timers b). (timer_id t \<noteq> i) = (handle_of (callback t) \<noteq> h)"
  proof
    fix t
    assume t: "t \<in> set (timers b)"
    then have own: "read_handle (handle_of (callback t)) b = Some (timer_id t)"
      using assms by (simp add: consistent_def)
    show "(timer_id t \<noteq> i) = (handle_of (callback t) \<noteq> h)"
    proof (cases "handle_of (callback t) = h")
      case True
      then show ?thesis using own Some by simp
    next
      case False
      then have "timer_id t \<noteq> i"
        using own Some assms
        by (cases h; cases "handle_of (callback t)")
           (auto simp: consistent_def read_handle_def)
      then show ?thesis using False by simp
    qed
  qed
  then have "filter (\<lambda>t. timer_id t \<noteq> i) (timers b)
             = filter (\<lambda>t. handle_of (callback t) \<noteq> h) (timers b)"
    by (intro filter_cong) simp_all
  then show ?thesis
    using Some by (simp add: clearTimeout_def)
qed

lemma clearTimeout_rest:
  "now (clearTimeout x b) = now b \<and> next_id (clearTimeout x b) = next_id b
   \<and> sent (clearTimeout x b) = sent b \<and> notes_text (clearTimeout x b) = notes_text b
   \<and> financialTimeout (clearTimeout x b) = financialTimeout b
   \<and> notesTimeout (clearTimeout x b) = notesTimeout b"
  by (cases x) (simp_all add: clearTimeout_def)

text \<open>The three handlers in terms of \<open>restart\<close>.\<close>

lemma onChange_restart:
  "onChange_total_cost r v b = restart (UpdateFinancialField r TotalCost v) b"
  "onChange_parts_cost r v b = restart (UpdateFinancialField r PartsCost v) b"
  "onChange_admin_notes r v b
     = restart (UpdateAdminNotes r) (b\<lparr>notes_text := (notes_text b)(r := v)\<rparr>)"
  by (simp_all add: onChange_total_cost_def onChange_parts_cost_def onChange_admin_notes_def
        restart_def read_handle_def write_handle_def Let_def split: prod.splits)

lemma restart_timers:
  assumes "consistent b"
  shows "timers (restart cb b)
         = filter (\<lambda>t. handle_of (callback t) \<noteq> handle_of cb) (timers b)
           @ [\<lparr>timer_id = next_id b, due = now b + 1000, callback = cb\<rparr>]"
  using clearTimeout_handle [OF assms, of "handle_of cb"] clearTimeout_rest
  by (cases "handle_of cb")
     (simp_all add: restart_def Let_def setTimeout_def write_handle_def)

lemma restart_rest:
  "now (restart cb b) = now b \<and> sent (restart cb b) = sent b
   \<and> notes_text (restart cb b) = notes_text b
   \<and> next_id (restart cb b) = next_id b + 1
   \<and> read_handle h (restart cb b)
     = (if h = handle_of cb then Some (next_id b) else read_handle h b)"
  using clearTimeout_rest
  by (cases "handle_of cb"; cases h)
     (simp_all add: restart_def Let_def setTimeout_def write_handle_def read_handle_def)

lemma restart_pending:
  assumes "consistent b"
  shows "pending h (restart cb b)
         = (if handle_of cb = h
            then [\<lparr>timer_id = next_id b, due = now b + 1000, callback = cb\<rparr>]
            else pending h b)"
proof -
  have "filter (\<lambda>t. handle_of (callback t) = h)
          (filter (\<lambda>t. handle_of (callback t) \<noteq> handle_of cb) (timers b))
        = (if handle_of cb = h then [] else pending h b)"
    by (auto simp: pending_def intro: filter_cong)
  then show ?thesis
    by (simp add: pending_def restart_timers [OF assms])
qed

lemma restart_consistent:
  assumes "consistent b"
  shows "consistent (restart cb b)"
proof -
  let ?h = "handle_of cb"
  let ?kept = "filter (\<lambda>t. handle_of (callback t) \<noteq> ?h) (timers b)"
  have ids: "\<forall>t \<in> set ?kept. timer_id t < next_id b"
    using assms by (simp add: consistent_def)
  then have fresh: "next_id b \<notin> timer_id ` set ?kept"
    by auto
  have "distinct (map timer_id ?kept)"
    using assms by (simp add: consistent_def distinct_map_filter)
  then have d: "distinct (map timer_id (timers (restart cb b)))"
    using fresh by (simp add: restart_timers [OF assms])
  have own: "\<forall>t \<in> set (timers (restart cb b)).
               timer_id t < next_id (restart cb b) \<and> now (restart cb b) < due t \<and>
               read_handle (handle_of (callback t)) (restart cb b) = Some (timer_id t)"
    using assms ids
    by (auto simp: restart_timers [OF assms] restart_rest consistent_def)
  have fin: "\<forall>i. financialTimeout (restart cb b) = Some i
               \<longrightarrow> i < next_id (restart cb b) \<and> notesTimeout (restart cb b) \<noteq> Some i"
    using assms restart_rest [of cb b FinancialTimeout] restart_rest [of cb b NotesTimeout]
    by (cases ?h) (auto simp: consistent_def read_handle_def)
  have nts: "\<forall>i. notesTimeout (restart cb b) = Some i \<longrightarrow> i < next_id (restart cb b)"
    using assms restart_rest [of cb b FinancialTimeout] restart_rest [of cb b NotesTimeout]
    by (cases ?h) (auto simp: consistent_def read_handle_def)
  show ?thesis
    unfolding consistent_def using d own fin nts by blast
qed

lemma consistent_notes_text: "consistent b \<Longrightarrow> consistent (b\<lparr>notes_text := text\<rparr>)"
  by (simp add: consistent_def read_handle_simps)

lemma pending_notes_text: "pending h (b\<lparr>notes_text := text\<rparr>) = pending h b"
  by (simp add: pending_def)

lemma pending_at_most_one:
  assumes "consistent b"
  shows "pending h b = [] \<or> (\<exists>t. pending h b = [t])"
proof (cases "pending h b")
  case Nil
  then show ?thesis by simp
next
  case (Cons t ts)
  have d: "distinct (map timer_id (pending h b))"
    using assms by (simp add: consistent_def pending_def distinct_map_filter)
  have same: "\<forall>u \<in> set (pending h b). Some (timer_id u) = read_handle h b"
    using assms by (auto simp: consistent_def pending_def)
  have "ts = []"
  proof (cases ts)
    case Nil
    then show ?thesis .
  next
    case (Cons u us)
    then have "timer_id t = timer_id u"
      using same \<open>pending h b = t # ts\<close> by (metis list.set_intros(1,2) option.inject)
    then show ?thesis
      using d \<open>pending h b = t # ts\<close> Cons by simp
  qed
  then show ?thesis using Cons by simp
qed

lemma pending_not_due:
  assumes "consistent b" and "t \<in> set (pending h b)"
  shows "now b < due t"
  using assms by (simp add: consistent_def pending_def)

text \<open>Time passing: what runs through a handle, and what stays pending.\<close>

lemma elapse_pending:
  "pending h (elapse d b) = filter (\<lambda>t. \<not> due t \<le> now b + d) (pending h b)"
  by (auto simp: elapse_def Let_def pending_def intro: filter_cong)

lemma elapse_rest:
  "now (elapse d b) = now b + d \<and> notes_text (elapse d b) = notes_text b
   \<and> next_id (elapse d b) = next_id b \<and> read_handle h (elapse d b) = read_handle h b"
  by (cases h) (simp_all add: elapse_def Let_def read_handle_def)

lemma elapse_sent_for:
  assumes "consistent b"
  shows "sent_for h (sent (elapse d b))
         = sent_for h (sent b)
           @ map (\<lambda>t. request_of (notes_text b) (callback t))
               (filter (\<lambda>t. due t \<le> now b + d) (pending h b))"
proof -
  let ?ready = "filter (\<lambda>t. due t \<le> now b + d) (timers b)"
  have "sent_for h (map (\<lambda>t. request_of (notes_text b) (callback t)) (sort_key due ?ready))
        = map (\<lambda>t. request_of (notes_text b) (callback t))
            (filter (\<lambda>t. handle_of (callback t) = h) (sort_key due ?ready))"
    by (simp add: sent_for_def filter_map comp_def handle_of_request)
  also have "filter (\<lambda>t. handle_of (callback t) = h) (sort_key due ?ready)
             = sort_key due (filter (\<lambda>t. handle_of (callback t) = h) ?ready)"
    by (simp add: filter_sort)
  also have "filter (\<lambda>t. handle_of (callback t) = h) ?ready
             = filter (\<lambda>t. due t \<le> now b + d) (pending h b)"
    by (simp add: pending_def conj_commute)
  also have "sort_key due (filter (\<lambda>t. due t \<le> now b + d) (pending h b))
             = filter (\<lambda>t. due t \<le> now b + d) (pending h b)"
    using pending_at_most_one [OF assms, of h] by auto
  finally show ?thesis
    by (simp add: elapse_def Let_def sent_for_def)
qed

lemma elapse_consistent:
  assumes "consistent b"
  shows "consistent (elapse d b)"
proof -
  have "distinct (map timer_id (filter (\<lambda>t. \<not> due t \<le> now b + d) (timers b)))"
    using assms by (simp add: consistent_def distinct_map_filter)
  then show ?thesis
    using assms elapse_rest [of d b]
    by (simp add: consistent_def) (auto simp: elapse_def Let_def read_handle_def)
qed

lemma step_consistent:
  assumes "consistent b"
  shows "consistent (step b ev)"
proof (cases ev)
  case (EditCost r f v)
  then show ?thesis
    using assms by (cases f) (simp_all add: onChange_restart restart_consistent)
next
  case (EditNotes r v)
  then show ?thesis
    using assms by (simp add: onChange_restart restart_consistent consistent_notes_text)
next
  case (Refetched tx)
  then show ?thesis using assms by (simp add: consistent_notes_text)
next
  case (Elapse d)
  then show ?thesis using assms by (simp add: elapse_consistent)
qed

lemma page_load_consistent: "consistent (page_load text)"
  by (simp add: consistent_def page_load_def)

lemma run_Cons: "run (ev # evs) b = run evs (step b ev)"
  by (simp add: run_def)

lemma run_append: "run (evs @ evs') b = run evs' (run evs b)"
  by (simp add: run_def)

lemma run_consistent:
  assumes "consistent b"
  shows "consistent (run evs b)"
  using assms
proof (induction evs arbitrary: b)
  case Nil
  then show ?case by (simp add: run_def)
next
  case (Cons ev evs)
  then show ?case by (simp add: run_Cons step_consistent)
qed

text \<open>
  One step of the component against the description by events: what has been sent
  through a handle, what its pending timer will send, and what the later edits will.
\<close>

lemma carried_Nil: "pending h b = [] \<Longrightarrow> carried h b evs = []"
  by (simp add: carried_def)

lemma carried_single:
  "pending h b = [t] \<Longrightarrow>
   carried h b evs
   = (if due t \<le> now b + quiet h evs
      then [request_of (text_when (due t - now b) (notes_text b) evs) (callback t)] else [])"
  by (simp add: carried_def)

lemma carried_now:
  assumes "consistent b"
  shows "carried h b [] = []"
proof -
  consider "pending h b = []" | t where "pending h b = [t]"
    using pending_at_most_one [OF assms, of h] by blast
  then show ?thesis
  proof cases
    case 1
    then show ?thesis by (rule carried_Nil)
  next
    case 2
    then have "now b < due t" using pending_not_due [OF assms, of t h] by simp
    then show ?thesis using 2 by (simp add: carried_single)
  qed
qed

lemma carried_cancelled:
  assumes "consistent b" and "quiet h evs = 0"
  shows "carried h b evs = []"
proof -
  consider "pending h b = []" | t where "pending h b = [t]"
    using pending_at_most_one [OF assms(1), of h] by blast
  then show ?thesis
  proof cases
    case 1
    then show ?thesis by (rule carried_Nil)
  next
    case 2
    then have "now b < due t" using pending_not_due [OF assms(1), of t h] by simp
    then show ?thesis using 2 assms(2) by (simp add: carried_single)
  qed
qed

lemma request_of_cost: "request_of tx (UpdateFinancialField r f v) = request_of tx' (UpdateFinancialField r f v)"
  by simp

lemma step_restart:
  assumes "consistent b" and "edit_task ev = Some cb"
  shows "step b ev = restart cb (b\<lparr>notes_text := text_after (notes_text b) ev\<rparr>)"
proof (cases ev)
  case (EditCost r f v)
  then show ?thesis using assms(2) by (cases f) (auto simp: onChange_restart)
next
  case (EditNotes r v)
  then show ?thesis using assms(2) by (auto simp: onChange_restart)
next
  case (Refetched tx)
  then show ?thesis using assms(2) by simp
next
  case (Elapse d)
  then show ?thesis using assms(2) by simp
qed

lemma quiet_edit:
  assumes "edit_task ev = Some cb"
  shows "quiet h (ev # evs) = (if handle_of cb = h then 0 else quiet h evs)"
  using assms by (cases ev) auto

lemma text_when_not_Elapse:
  assumes "\<forall>d. ev \<noteq> Elapse d"
  shows "text_when n tx (ev # evs) = text_when n (text_after tx ev) evs"
  using assms by (cases ev) simp_all

lemma quiet_Refetched: "quiet h (Refetched tx # evs) = quiet h evs"
  by simp

lemma step_edit:
  assumes "consistent b" and "edit_task ev = Some cb"
  shows "sent_for h (sent (step b ev)) @ carried h (step b ev) evs
           @ debounced h (notes_text (step b ev)) evs
         = sent_for h (sent b) @ carried h b (ev # evs) @ debounced h (notes_text b) (ev # evs)"
proof -
  let ?tx = "text_after (notes_text b) ev"
  let ?b = "b\<lparr>notes_text := ?tx\<rparr>"
  have c: "consistent ?b" using assms(1) by (rule consistent_notes_text)
  have s: "step b ev = restart cb ?b" using assms by (rule step_restart)
  have rest: "sent (step b ev) = sent b" "notes_text (step b ev) = ?tx" "now (step b ev) = now b"
    using restart_rest [of cb ?b FinancialTimeout] by (simp_all add: s)
  have ne: "\<forall>d. ev \<noteq> Elapse d" using assms(2) by auto
  have tw: "\<And>n. text_when n (notes_text b) (ev # evs) = text_when n ?tx evs"
    using ne by (rule text_when_not_Elapse)
  show ?thesis
  proof (cases "handle_of cb = h")
    case True
    have p: "pending h (step b ev)
             = [\<lparr>timer_id = next_id b, due = now b + 1000, callback = cb\<rparr>]"
      using True by (simp add: s restart_pending [OF c])
    have "quiet h (ev # evs) = 0" using True assms(2) by (simp add: quiet_edit)
    then have old: "carried h b (ev # evs) = []"
      by (rule carried_cancelled [OF assms(1)])
    have new: "carried h (step b ev) evs
               = (if 1000 \<le> quiet h evs then [request_of (text_when 1000 ?tx evs) cb] else [])"
      by (simp add: carried_single [OF p] rest)
    show ?thesis
      using True assms(2) by (simp add: old new rest)
  next
    case False
    have p: "pending h (step b ev) = pending h b"
      using False by (simp add: s restart_pending [OF c] pending_notes_text)
    have q: "quiet h (ev # evs) = quiet h evs" using False assms(2) by (simp add: quiet_edit)
    have "carried h (step b ev) evs = carried h b (ev # evs)"
      by (cases "pending h b") (simp_all add: carried_def p q rest tw)
    then show ?thesis
      using False assms(2) by (simp add: rest)
  qed
qed

lemma step_Refetched:
  "sent_for h (sent (step b (Refetched tx))) @ carried h (step b (Refetched tx)) evs
     @ debounced h (notes_text (step b (Refetched tx))) evs
   = sent_for h (sent b) @ carried h b (Refetched tx # evs)
     @ debounced h (notes_text b) (Refetched tx # evs)"
  by (cases "pending h b") (simp_all add: carried_def pending_notes_text)

lemma step_Elapse:
  assumes "consistent b"
  shows "sent_for h (sent (step b (Elapse d))) @ carried h (step b (Elapse d)) evs
           @ debounced h (notes_text (step b (Elapse d))) evs
         = sent_for h (sent b) @ carried h b (Elapse d # evs)
           @ debounced h (notes_text b) (Elapse d # evs)"
proof -
  have rest: "now (elapse d b) = now b + d" "notes_text (elapse d b) = notes_text b"
    using elapse_rest [of d b h] by simp_all
  consider "pending h b = []" | t where "pending h b = [t]"
    using pending_at_most_one [OF assms, of h] by blast
  then show ?thesis
  proof cases
    case 1
    then have "pending h (elapse d b) = []" by (simp add: elapse_pending)
    then show ?thesis
      using 1 by (simp add: carried_Nil elapse_sent_for [OF assms] rest)
  next
    case 2
    show ?thesis
    proof (cases "due t \<le> now b + d")
      case True
      then have "pending h (elapse d b) = []" using 2 by (simp add: elapse_pending)
      then have "carried h (elapse d b) evs = []" by (rule carried_Nil)
      moreover have "carried h b (Elapse d # evs) = [request_of (notes_text b) (callback t)]"
        using True by (simp add: carried_single [OF 2])
      ultimately show ?thesis
        using True 2 by (simp add: elapse_sent_for [OF assms] rest)
    next
      case False
      then have p: "pending h (elapse d b) = [t]" using 2 by (simp add: elapse_pending)
      have "due t - (now b + d) = due t - now b - d" by simp
      then have "carried h (elapse d b) evs = carried h b (Elapse d # evs)"
        using False by (simp add: carried_single [OF p] carried_single [OF 2] rest add.assoc)
      then show ?thesis
        using False 2 by (simp add: elapse_sent_for [OF assms] rest)
    qed
  qed
qed

lemma step_debounced:
  assumes "consistent b"
  shows "sent_for h (sent (step b ev)) @ carried h (step b ev) evs
           @ debounced h (notes_text (step b ev)) evs
         = sent_for h (sent b) @ carried h b (ev # evs) @ debounced h (notes_text b) (ev # evs)"
proof (cases ev)
  case (EditCost r f v)
  then have "edit_task ev = Some (UpdateFinancialField r f v)" by simp
  then show ?thesis using assms by (rule step_edit [rotated])
next
  case (EditNotes r v)
  then have "edit_task ev = Some (UpdateAdminNotes r)" by simp
  then show ?thesis using assms by (rule step_edit [rotated])
next
  case (Refetched tx)
  then show ?thesis by (simp only: step_Refetched)
next
  case (Elapse d)
  then show ?thesis using step_Elapse [OF assms] by simp
qed

text \<open>The component sends through each handle what the description by events says.\<close>

lemma run_debounced:
  assumes "consistent b"
  shows "sent_for h (sent (run evs b))
         = sent_for h (sent b) @ carried h b evs @ debounced h (notes_text b) evs"
  using assms
proof (induction evs arbitrary: b)
  case Nil
  then show ?case by (simp add: run_def carried_now)
next
  case (Cons ev evs)
  have "sent_for h (sent (run (ev # evs) b)) = sent_for h (sent (run evs (step b ev)))"
    by (simp add: run_Cons)
  also have "\<dots> = sent_for h (sent (step b ev)) @ carried h (step b ev) evs
                    @ debounced h (notes_text (step b ev)) evs"
    using Cons.prems by (intro Cons.IH step_consistent)
  also have "\<dots> = sent_for h (sent b) @ carried h b (ev # evs)
                    @ debounced h (notes_text b) (ev # evs)"
    using Cons.prems by (rule step_debounced)
  finally show ?case .
qed

subsection \<open>A burst of edits\<close>

lemma handle_of_event_task: "handle_of_event ev = map_option handle_of (edit_task ev)"
  by (cases ev) simp_all

lemma last_edit_Cons_None:
  "last_edit h (ev # evs) = None
   \<longleftrightarrow> last_edit h evs = None \<and> handle_of_event ev \<noteq> Some h"
  by (cases ev) (auto split: option.splits)

lemma quiet_no_edit:
  "last_edit h evs = None \<Longrightarrow> quiet h (evs @ evs') = duration evs + quiet h evs'"
proof (induction evs)
  case Nil
  then show ?case by simp
next
  case (Cons ev evs)
  from Cons.prems have e: "last_edit h evs = None" "handle_of_event ev \<noteq> Some h"
    using last_edit_Cons_None [of h ev evs] by blast+
  have "quiet h (evs @ evs') = duration evs + quiet h evs'"
    using e(1) by (rule Cons.IH)
  then show ?case using e(2) by (cases ev) simp_all
qed

lemma quiet_edit_le:
  "last_edit h evs \<noteq> None \<Longrightarrow> quiet h (evs @ evs') \<le> duration evs"
proof (induction evs)
  case Nil
  then show ?case by simp
next
  case (Cons ev evs)
  show ?case
  proof (cases "last_edit h evs = None")
    case True
    have "\<not> (last_edit h evs = None \<and> handle_of_event ev \<noteq> Some h)"
      using Cons.prems unfolding last_edit_Cons_None .
    then have "handle_of_event ev = Some h"
      using True by simp
    then show ?thesis by (cases ev) simp_all
  next
    case False
    then have "quiet h (evs @ evs') \<le> duration evs" by (rule Cons.IH)
    then show ?thesis by (cases ev) simp_all
  qed
qed

lemma text_when_end:
  "duration evs < n \<Longrightarrow> n \<le> duration evs + d
   \<Longrightarrow> text_when n tx (evs @ [Elapse d]) = foldl text_after tx evs"
proof (induction evs arbitrary: n tx)
  case Nil
  then show ?case by simp
next
  case (Cons ev evs)
  then show ?case by (cases ev) (simp_all add: fun_upd_def)
qed

lemma duration_Cons_le: "duration evs \<le> duration (ev # evs)"
  by (cases ev) simp_all

lemma burst_debounced:
  assumes "duration evs < 1000" and "1000 \<le> d"
  shows "debounced h tx (evs @ [Elapse d])
         = (case last_edit h evs of
              None \<Rightarrow> []
            | Some cb \<Rightarrow> [request_of (foldl text_after tx evs) cb])"
  using assms(1)
proof (induction evs arbitrary: tx)
  case Nil
  then show ?case by simp
next
  case (Cons ev evs)
  let ?tx = "text_after tx ev"
  have short: "duration evs < 1000"
    using Cons.prems duration_Cons_le [of evs ev] by simp
  have IH: "debounced h ?tx (evs @ [Elapse d])
            = (case last_edit h evs of
                 None \<Rightarrow> []
               | Some cb \<Rightarrow> [request_of (foldl text_after ?tx evs) cb])"
    using short by (rule Cons.IH)
  show ?case
  proof (cases "\<exists>cb. edit_task ev = Some cb \<and> handle_of cb = h")
    case False
    then have "debounced h tx ((ev # evs) @ [Elapse d]) = debounced h ?tx (evs @ [Elapse d])"
      by (auto split: option.splits)
    moreover have "last_edit h (ev # evs) = last_edit h evs"
      using False by (auto split: option.splits)
    ultimately show ?thesis using IH by (simp cong: option.case_cong)
  next
    case True
    then obtain cb where cb: "edit_task ev = Some cb" "handle_of cb = h" by blast
    show ?thesis
    proof (cases "last_edit h evs")
      case None
      have "quiet h (evs @ [Elapse d]) = duration evs + d"
        using None by (simp add: quiet_no_edit)
      then have q: "1000 \<le> quiet h (evs @ [Elapse d])" using assms(2) by simp
      have "text_when 1000 ?tx (evs @ [Elapse d]) = foldl text_after ?tx evs"
        using short assms(2) by (intro text_when_end) simp_all
      then show ?thesis using None cb q IH by (simp cong: option.case_cong)
    next
      case (Some later)
      then have "quiet h (evs @ [Elapse d]) \<le> duration evs"
        by (intro quiet_edit_le) simp
      then have "\<not> 1000 \<le> quiet h (evs @ [Elapse d])" using short by simp
      then show ?thesis using Some cb IH by (simp cong: option.case_cong)
    qed
  qed
qed

lemma carried_page_load: "carried h (page_load tx) evs = []"
  by (simp add: carried_def pending_def page_load_def)

lemma sent_page_load: "sent (page_load tx) = []" "notes_text (page_load tx) = tx"
  by (simp_all add: page_load_def)

lemma run_page_load_debounced:
  "sent_for h (sent (run evs (page_load tx))) = debounced h tx evs"
  using run_debounced [where b = "page_load tx" and h = h and evs = evs, OF page_load_consistent]
  by (simp add: carried_page_load sent_page_load sent_for_def)

lemma step_edit_pending:
  assumes "consistent b" and "edit_task ev = Some cb"
  shows "pending h (step b ev)
         = (if h = handle_of cb
            then [\<lparr>timer_id = next_id b, due = now b + 1000, callback = cb\<rparr>]
            else pending h b)"
    and "sent (step b ev) = sent b"
    and "notes_text (step b ev) = text_after (notes_text b) ev"
proof -
  let ?b = "b\<lparr>notes_text := text_after (notes_text b) ev\<rparr>"
  have c: "consistent ?b" using assms(1) by (rule consistent_notes_text)
  have s: "step b ev = restart cb ?b" using assms by (rule step_restart)
  show "pending h (step b ev)
         = (if h = handle_of cb
            then [\<lparr>timer_id = next_id b, due = now b + 1000, callback = cb\<rparr>]
            else pending h b)"
    by (auto simp: s restart_pending [OF c] pending_notes_text)
  show "sent (step b ev) = sent b"
    using restart_rest [of cb ?b h] by (simp add: s)
  show "notes_text (step b ev) = text_after (notes_text b) ev"
    using restart_rest [of cb ?b h] by (simp add: s)
qed

text \<open>
  Claim C2 as it is written gives every pair of a report and a field a timer of its
  own, and lets the request carry the final value. The source has one timer for the two
  cost fields of all reports and one for the notes of all reports: an edit of the parts
  cost cancels the pending save of the total cost, and an edit of one report's notes
  cancels the pending save of another report's notes; the cancelled save never reaches
  the backend. The notes request carries what the textarea holds when the timer runs:
  when the list has been fetched again in between (here after the cost was saved), that
  is the text from the backend and not what was typed.
\<close>

theorem debounce_independent_counterexample:
  "map callback (timers (run [EditCost ''r1'' TotalCost ''100'', Elapse 500,
                              EditCost ''r1'' PartsCost ''40''] (page_load no_notes)))
     = [UpdateFinancialField ''r1'' PartsCost ''40'']
   \<and> sent (run [EditCost ''r1'' TotalCost ''100'', Elapse 500,
                EditCost ''r1'' PartsCost ''40'', Elapse 5000] (page_load no_notes))
     = [\<lparr>put_report = ''r1'', put_field = CostField PartsCost, put_value = ''40''\<rparr>]
   \<and> sent (run [EditNotes ''r1'' ''ok'', Elapse 500,
                EditNotes ''r2'' ''late'', Elapse 5000] (page_load no_notes))
     = [\<lparr>put_report = ''r2'', put_field = AdminNotes, put_value = ''late''\<rparr>]
   \<and> sent (run [EditCost ''r1'' TotalCost ''100'', Elapse 900, EditNotes ''r1'' ''abc'',
                Elapse 200, Refetched no_notes, Elapse 5000] (page_load no_notes))
     = [\<lparr>put_report = ''r1'', put_field = CostField TotalCost, put_value = ''100''\<rparr>,
        \<lparr>put_report = ''r1'', put_field = AdminNotes, put_value = ''''\<rparr>]"
  by code_simp

text \<open>
  Claim C2, amended. There is one timer for the cost fields of all reports and one for
  the notes of all reports. In every state \<open>b\<close> that the component reaches, an edit
  cancels the pending timer of its own handle and sets a new one, due 1000 ms later,
  for its own request; the timer of the other handle stays and nothing is sent yet.
  Whatever the events, the backend receives through each handle exactly the requests of
  the edits that no edit through the same handle follows within 1000 ms, once that
  time has passed: a cost request carries the text of the edit, a notes request what
  the textarea of its report holds when the timer runs. In particular, after a burst of
  edits that takes less than 1000 ms and a pause of at least 1000 ms, each handle has
  sent one request if the burst has an edit through it, for the last such edit (the
  notes request with the text the textarea holds at the end of the burst), and none
  otherwise.
\<close>

theorem debounce_per_handle:
  "(let b = run pre (page_load loaded) in
      pending h (step b (EditCost r f v))
        = (if h = FinancialTimeout
           then [\<lparr>timer_id = next_id b, due = now b + 1000,
                  callback = UpdateFinancialField r f v\<rparr>]
           else pending h b)
    \<and> sent (step b (EditCost r f v)) = sent b
    \<and> pending h (step b (EditNotes r v))
        = (if h = NotesTimeout
           then [\<lparr>timer_id = next_id b, due = now b + 1000, callback = UpdateAdminNotes r\<rparr>]
           else pending h b)
    \<and> sent (step b (EditNotes r v)) = sent b
    \<and> notes_text (step b (EditNotes r v)) = (notes_text b)(r := v))
   \<and> sent_for h (sent (run evs (page_load loaded))) = debounced h loaded evs
   \<and> (duration evs < 1000 \<and> 1000 \<le> d \<longrightarrow>
        sent_for h (sent (run (evs @ [Elapse d]) (page_load loaded)))
        = (case last_edit h evs of
             None \<Rightarrow> []
           | Some cb \<Rightarrow> [request_of (foldl text_after loaded evs) cb]))"
proof -
  let ?b = "run pre (page_load loaded)"
  have c: "consistent ?b"
    using page_load_consistent by (rule run_consistent)
  have cost: "edit_task (EditCost r f v) = Some (UpdateFinancialField r f v)"
    and nts: "edit_task (EditNotes r v) = Some (UpdateAdminNotes r)"
    by simp_all
  have edits: "pending h (step ?b (EditCost r f v))
        = (if h = FinancialTimeout
           then [\<lparr>timer_id = next_id ?b, due = now ?b + 1000,
                  callback = UpdateFinancialField r f v\<rparr>]
           else pending h ?b)"
    "sent (step ?b (EditCost r f v)) = sent ?b"
    "pending h (step ?b (EditNotes r v))
        = (if h = NotesTimeout
           then [\<lparr>timer_id = next_id ?b, due = now ?b + 1000, callback = UpdateAdminNotes r\<rparr>]
           else pending h ?b)"
    "sent (step ?b (EditNotes r v)) = sent ?b"
    "notes_text (step ?b (EditNotes r v)) = (notes_text ?b)(r := v)"
    using step_edit_pending(1) [OF c cost, of h] step_edit_pending(2,3) [OF c cost]
      step_edit_pending(1) [OF c nts, of h] step_edit_pending(2,3) [OF c nts]
    by simp_all
  have all: "sent_for h (sent (run evs (page_load loaded))) = debounced h loaded evs"
    by (rule run_page_load_debounced)
  have burst: "duration evs < 1000 \<and> 1000 \<le> d \<longrightarrow>
        sent_for h (sent (run (evs @ [Elapse d]) (page_load loaded)))
        = (case last_edit h evs of
             None \<Rightarrow> []
           | Some cb \<Rightarrow> [request_of (foldl text_after loaded evs) cb])"
    by (simp only: run_page_load_debounced) (simp add: burst_debounced)
  show ?thesis
    unfolding Let_def using edits all burst by (intro conjI)
qed

text \<open>
  An instance of C2, amended: three edits of the notes and one of the total cost within
  600 ms, then a pause of 1000 ms.
\<close>

theorem debounce_per_handle_witness:
  "duration [EditNotes ''r1'' ''a'', Elapse 300, EditNotes ''r1'' ''ab'', Elapse 300,
             EditCost ''r1'' TotalCost ''5'', EditNotes ''r1'' ''abc''] < 1000
   \<and> (1000 :: nat) \<le> 1000
   \<and> sent_for NotesTimeout
       (sent (run ([EditNotes ''r1'' ''a'', Elapse 300, EditNotes ''r1'' ''ab'', Elapse 300,
                    EditCost ''r1'' TotalCost ''5'', EditNotes ''r1'' ''abc'']
                   @ [Elapse 1000]) (page_load no_notes)))
     = [\<lparr>put_report = ''r1'', put_field = AdminNotes, put_value = ''abc''\<rparr>]"
  using debounce_per_handle
    [where pre = "[]" and loaded = no_notes and h = NotesTimeout and r = "''r1''"
       and f = TotalCost and v = "''5''" and d = 1000
       and evs = "[EditNotes ''r1'' ''a'', Elapse 300, EditNotes ''r1'' ''ab'', Elapse 300,
                   EditCost ''r1'' TotalCost ''5'', EditNotes ''r1'' ''abc'']"]
  by (simp add: Let_def)

end
